theory Spec2Isabelle
  imports Main
begin

unbundle bit_operations_syntax

section \<open>Python values and exceptions\<close>

text \<open>
  The exceptions the wheel classes of \<^verbatim>\<open>LorenzMachine.py\<close> can raise. Nothing in the
  file catches an exception, so a raise ends the run: it is the \<open>Inl\<close> branch of
  every operation below.
\<close>

datatype error = ZeroDivisionError | IndexError | ValueError

text \<open>
  \<^verbatim>\<open>xs[i]\<close> on a Python list: an index in \<open>[0, len)\<close> reads from the front, an index in
  \<open>[-len, 0)\<close> reads from the back, anything else raises IndexError.
\<close>

definition py_index :: "'a list \<Rightarrow> int \<Rightarrow> error + 'a" where
  "py_index xs i =
     (if 0 \<le> i \<and> i < int (length xs) then Inr (xs ! nat i)
      else if - int (length xs) \<le> i \<and> i < 0 then Inr (xs ! nat (i + int (length xs)))
      else Inl IndexError)"

section \<open>Wheel\<close>

text \<open>
  \<^verbatim>\<open>class Wheel\<close>: four attributes, none of them checked. Sizes and positions are
  Python integers, the pattern is a list of integers.
\<close>

record Wheel =
  wheel_name :: string
  wheel_data :: "int list"
  wheel_size :: int
  current_position :: int

text \<open>
  \<^verbatim>\<open>Wheel.__init__\<close> stores its arguments and has no raise statement. The result type
  leaves room for a failure so that its absence can be stated.
\<close>

definition Wheel_init :: "string \<Rightarrow> int \<Rightarrow> int \<Rightarrow> int list \<Rightarrow> error + Wheel" where
  "Wheel_init name sz initial_position data =
     Inr \<lparr>wheel_name = name, wheel_data = data, wheel_size = sz,
          current_position = initial_position\<rparr>"

text \<open>
  \<^verbatim>\<open>self.current_position = (self.current_position + 1) % self.wheel_size\<close>.
  Python's \<open>%\<close> raises on a zero modulus and otherwise takes the sign of the modulus,
  as \<open>mod\<close> on \<open>int\<close> does.
\<close>

definition Wheel_advance :: "Wheel \<Rightarrow> error + Wheel" where
  "Wheel_advance w =
     (if wheel_size w = 0 then Inl ZeroDivisionError
      else Inr (w\<lparr>current_position := (current_position w + 1) mod wheel_size w\<rparr>))"

definition Wheel_get_current_value :: "Wheel \<Rightarrow> error + int" where
  "Wheel_get_current_value w = py_index (wheel_data w) (current_position w)"

definition Wheel_get_current_position :: "Wheel \<Rightarrow> int" where
  "Wheel_get_current_position w = current_position w"

text \<open>\<open>n\<close> successive calls of \<^verbatim>\<open>advance()\<close> on one wheel.\<close>

fun Wheel_advance_n :: "nat \<Rightarrow> Wheel \<Rightarrow> error + Wheel" where
  "Wheel_advance_n 0 w = Inr w"
| "Wheel_advance_n (Suc n) w =
     (case Wheel_advance w of Inl e \<Rightarrow> Inl e | Inr w' \<Rightarrow> Wheel_advance_n n w')"

text \<open>The invariant of the data model: a positive size and a position below it.\<close>

definition position_valid :: "Wheel \<Rightarrow> bool" where
  "position_valid w \<longleftrightarrow> 1 \<le> wheel_size w \<and> 0 \<le> current_position w
     \<and> current_position w < wheel_size w"

section \<open>Text conversions\<close>

text \<open>
  \<^verbatim>\<open>str(i)\<close> on an integer: its decimal digits, with a leading minus sign when negative.
\<close>

definition digit_char :: "nat \<Rightarrow> char" where
  "digit_char d = ''0123456789'' ! d"

fun str_nat :: "nat \<Rightarrow> string" where
  "str_nat n = (if n < 10 then [digit_char n] else str_nat (n div 10) @ [digit_char (n mod 10)])"

declare str_nat.simps [simp del]

definition str_int :: "int \<Rightarrow> string" where
  "str_int i = (if i < 0 then CHR ''-'' # str_nat (nat (- i)) else str_nat (nat i))"

text \<open>
  \<^verbatim>\<open>int(s, base=2)\<close> on the strings this program builds: the prefix \<^verbatim>\<open>0b\<close> followed by
  characters that come out of \<open>str_int\<close> (decimal digits and minus signs). Python accepts
  such a string when at least one character follows the prefix and all of them are
  binary digits, and raises ValueError otherwise.
\<close>

definition bit_of_char :: "char \<Rightarrow> int" where
  "bit_of_char c = (if c = CHR ''1'' then 1 else 0)"

definition is_binary_digit :: "char \<Rightarrow> bool" where
  "is_binary_digit c \<longleftrightarrow> c = CHR ''0'' \<or> c = CHR ''1''"

definition py_int_base2 :: "string \<Rightarrow> error + int" where
  "py_int_base2 s =
     (let t = drop 2 s
      in if take 2 s = ''0b'' \<and> t \<noteq> [] \<and> list_all is_binary_digit t
         then Inr (foldl (\<lambda>acc c. 2 * acc + bit_of_char c) 0 t)
         else Inl ValueError)"

text \<open>
  \<^verbatim>\<open>'{0:05b}'.format(n)\<close>: the binary digits of \<open>|n|\<close>, padded with zeros on the left to
  five characters, the sign of a negative number counting as one of them.
\<close>

fun bin_nat :: "nat \<Rightarrow> string" where
  "bin_nat n = (if n < 2 then [digit_char n] else bin_nat (n div 2) @ [digit_char (n mod 2)])"

declare bin_nat.simps [simp del]

definition zfill :: "nat \<Rightarrow> string \<Rightarrow> string" where
  "zfill k s = replicate (k - length s) CHR ''0'' @ s"

definition format_05b :: "int \<Rightarrow> string" where
  "format_05b n =
     (if n < 0 then CHR ''-'' # zfill 4 (bin_nat (nat (- n))) else zfill 5 (bin_nat (nat n)))"

section \<open>The store of wheel objects\<close>

text \<open>
  A \<^verbatim>\<open>Wheel\<close> is a mutable object, and a bank holds references to wheels, not copies:
  one wheel object may stand in several banks, or twice in one. The store maps each
  reference to the object's present attributes; an operation that mutates wheels takes
  the store and returns the updated one.
\<close>

type_synonym ref = nat
type_synonym store = "ref \<Rightarrow> Wheel"

section \<open>WheelSet\<close>

text \<open>
  \<^verbatim>\<open>WheelSet.__init__(self, *wheels)\<close> keeps the tuple of wheel references it is given;
  the tuple is never reassigned, so a bank is that tuple. There is no raise statement.
\<close>

type_synonym WheelSet = "ref list"

definition WheelSet_init :: "ref list \<Rightarrow> error + WheelSet" where
  "WheelSet_init wheels = Inr wheels"

text \<open>\<^verbatim>\<open>for wheel in self.wheels: wheel.advance()\<close>\<close>

fun WheelSet_advance :: "WheelSet \<Rightarrow> store \<Rightarrow> error + store" where
  "WheelSet_advance [] h = Inr h"
| "WheelSet_advance (r # rs) h =
     (case Wheel_advance (h r) of
        Inl e \<Rightarrow> Inl e
      | Inr w' \<Rightarrow> WheelSet_advance rs (h(r := w')))"

text \<open>
  The loop of \<^verbatim>\<open>WheelSet.get_current_value\<close>, which appends each wheel's current value
  in bank order.
\<close>

fun current_values :: "WheelSet \<Rightarrow> store \<Rightarrow> error + int list" where
  "current_values [] h = Inr []"
| "current_values (r # rs) h =
     (case Wheel_get_current_value (h r) of
        Inl e \<Rightarrow> Inl e
      | Inr v \<Rightarrow> (case current_values rs h of
                   Inl e \<Rightarrow> Inl e
                 | Inr vs \<Rightarrow> Inr (v # vs)))"

text \<open>
  \<^verbatim>\<open>result = result[::-1]\<close> and
  \<^verbatim>\<open>int('0b' + ''.join([str(i) for i in result]), base=2)\<close>.
\<close>

definition WheelSet_get_current_value :: "WheelSet \<Rightarrow> store \<Rightarrow> error + int" where
  "WheelSet_get_current_value ws h =
     (case current_values ws h of
        Inl e \<Rightarrow> Inl e
      | Inr result \<Rightarrow> py_int_base2 (''0b'' @ concat (map str_int (rev result))))"

section \<open>MotorWheelSet\<close>

definition MotorWheelSet_init :: "ref list \<Rightarrow> error + WheelSet" where
  "MotorWheelSet_init wheels = WheelSet_init wheels"

text \<open>
  \<^verbatim>\<open>self.wheels[0].advance()\<close>, then
  \<^verbatim>\<open>if self.wheels[0].get_current_value() == 1: self.wheels[1].advance()\<close>.
  Indexing the tuple raises IndexError when the bank is too short.
\<close>

definition MotorWheelSet_advance :: "WheelSet \<Rightarrow> store \<Rightarrow> error + store" where
  "MotorWheelSet_advance ws h =
     (case py_index ws 0 of
        Inl e \<Rightarrow> Inl e
      | Inr r0 \<Rightarrow>
          (case Wheel_advance (h r0) of
             Inl e \<Rightarrow> Inl e
           | Inr w0 \<Rightarrow>
               (let h1 = h(r0 := w0)
                in case Wheel_get_current_value (h1 r0) of
                     Inl e \<Rightarrow> Inl e
                   | Inr v \<Rightarrow>
                       if v = 1
                       then (case py_index ws 1 of
                               Inl e \<Rightarrow> Inl e
                             | Inr r1 \<Rightarrow>
                                 (case Wheel_advance (h1 r1) of
                                    Inl e \<Rightarrow> Inl e
                                  | Inr w1 \<Rightarrow> Inr (h1(r1 := w1))))
                       else Inr h1)))"

text \<open>\<^verbatim>\<open>return True if self.wheels[1].get_current_value() == 1 else False\<close>\<close>

definition MotorWheelSet_is_active :: "WheelSet \<Rightarrow> store \<Rightarrow> error + bool" where
  "MotorWheelSet_is_active ws h =
     (case py_index ws 1 of
        Inl e \<Rightarrow> Inl e
      | Inr r1 \<Rightarrow>
          (case Wheel_get_current_value (h r1) of
             Inl e \<Rightarrow> Inl e
           | Inr v \<Rightarrow> Inr (v = 1)))"

text \<open>\<open>n\<close> successive calls of \<^verbatim>\<open>MotorWheelSet.advance()\<close>.\<close>

fun MotorWheelSet_advance_n :: "nat \<Rightarrow> WheelSet \<Rightarrow> store \<Rightarrow> error + store" where
  "MotorWheelSet_advance_n 0 ws h = Inr h"
| "MotorWheelSet_advance_n (Suc n) ws h =
     (case MotorWheelSet_advance ws h of
        Inl e \<Rightarrow> Inl e
      | Inr h' \<Rightarrow> MotorWheelSet_advance_n n ws h')"

section \<open>LorenzMachine\<close>

record LorenzMachine =
  k_set :: WheelSet
  s_set :: WheelSet
  m_set :: WheelSet

definition LorenzMachine_init :: "WheelSet \<Rightarrow> WheelSet \<Rightarrow> WheelSet \<Rightarrow> error + LorenzMachine" where
  "LorenzMachine_init k s m = Inr \<lparr>k_set = k, s_set = s, m_set = m\<rparr>"

text \<open>
  \<^verbatim>\<open>LorenzMachine.advance\<close>: the K bank, then the motor bank, then the S bank when the
  motor bank reports active.
\<close>

definition LorenzMachine_advance :: "LorenzMachine \<Rightarrow> store \<Rightarrow> error + store" where
  "LorenzMachine_advance M h =
     (case WheelSet_advance (k_set M) h of
        Inl e \<Rightarrow> Inl e
      | Inr h1 \<Rightarrow>
          (case MotorWheelSet_advance (m_set M) h1 of
             Inl e \<Rightarrow> Inl e
           | Inr h2 \<Rightarrow>
               (case MotorWheelSet_is_active (m_set M) h2 of
                  Inl e \<Rightarrow> Inl e
                | Inr active \<Rightarrow>
                    if active then WheelSet_advance (s_set M) h2 else Inr h2)))"

text \<open>
  \<^verbatim>\<open>result = char ^ self.k_set.get_current_value() ^ self.s_set.get_current_value()\<close>,
  \<^verbatim>\<open>self.advance()\<close>, \<^verbatim>\<open>return result\<close>. Python's \<open>^\<close> on integers is \<open>XOR\<close> on \<open>int\<close>
  and associates to the left.
\<close>

definition LorenzMachine_encrypt_character ::
  "LorenzMachine \<Rightarrow> int \<Rightarrow> store \<Rightarrow> error + int \<times> store" where
  "LorenzMachine_encrypt_character M char h =
     (case WheelSet_get_current_value (k_set M) h of
        Inl e \<Rightarrow> Inl e
      | Inr k \<Rightarrow>
          (case WheelSet_get_current_value (s_set M) h of
             Inl e \<Rightarrow> Inl e
           | Inr s \<Rightarrow>
               (let result = (char XOR k) XOR s
                in case LorenzMachine_advance M h of
                     Inl e \<Rightarrow> Inl e
                   | Inr h' \<Rightarrow> Inr (result, h'))))"

text \<open>
  The comprehension \<^verbatim>\<open>[self.encrypt_character(number) for number in message]\<close> of
  \<^verbatim>\<open>encrypt_message\<close>.
\<close>

fun encrypt_characters :: "LorenzMachine \<Rightarrow> int list \<Rightarrow> store \<Rightarrow> error + int list \<times> store" where
  "encrypt_characters M [] h = Inr ([], h)"
| "encrypt_characters M (number # message) h =
     (case LorenzMachine_encrypt_character M number h of
        Inl e \<Rightarrow> Inl e
      | Inr (x, h1) \<Rightarrow>
          (case encrypt_characters M message h1 of
             Inl e \<Rightarrow> Inl e
           | Inr (xs, h2) \<Rightarrow> Inr (x # xs, h2)))"

text \<open>
  \<^verbatim>\<open>return '0b' + ''.join(['{0:05b}'.format(number) for number in encrypted_message])\<close>:
  the method returns a string of binary digits, not the list of integers.
\<close>

definition LorenzMachine_encrypt_message ::
  "LorenzMachine \<Rightarrow> int list \<Rightarrow> store \<Rightarrow> error + string \<times> store" where
  "LorenzMachine_encrypt_message M message h =
     (case encrypt_characters M message h of
        Inl e \<Rightarrow> Inl e
      | Inr (encrypted_message, h') \<Rightarrow>
          Inr (''0b'' @ concat (map format_05b encrypted_message), h'))"

text \<open>\<open>n\<close> successive calls of \<^verbatim>\<open>LorenzMachine.advance()\<close>.\<close>

fun LorenzMachine_advance_n :: "nat \<Rightarrow> LorenzMachine \<Rightarrow> store \<Rightarrow> error + store" where
  "LorenzMachine_advance_n 0 M h = Inr h"
| "LorenzMachine_advance_n (Suc n) M h =
     (case LorenzMachine_advance M h of
        Inl e \<Rightarrow> Inl e
      | Inr h' \<Rightarrow> LorenzMachine_advance_n n M h')"

section \<open>Valid states\<close>

text \<open>
  The invariants of the data model: a wheel has a positive size, a pattern of that
  length made of bits, and a position that indexes it; the K and S banks are not empty
  and the motor bank has its two wheels. The source never checks any of this.
\<close>

definition is_bit :: "int \<Rightarrow> bool" where
  "is_bit b \<longleftrightarrow> b = 0 \<or> b = 1"

definition wheel_ok :: "Wheel \<Rightarrow> bool" where
  "wheel_ok w \<longleftrightarrow> position_valid w \<and> int (length (wheel_data w)) = wheel_size w
     \<and> list_all is_bit (wheel_data w)"

definition machine_ok :: "LorenzMachine \<Rightarrow> store \<Rightarrow> bool" where
  "machine_ok M h \<longleftrightarrow> k_set M \<noteq> [] \<and> s_set M \<noteq> [] \<and> 2 \<le> length (m_set M)
     \<and> list_all (\<lambda>r. wheel_ok (h r)) (k_set M @ s_set M @ m_set M)"

text \<open>
  Every bank position holds a wheel object of its own, as in the main block of the
  source, which builds twelve wheels for twelve positions.
\<close>

definition no_sharing :: "LorenzMachine \<Rightarrow> bool" where
  "no_sharing M \<longleftrightarrow> distinct (k_set M @ s_set M @ m_set M)"

text \<open>The bit a wheel shows: the pattern entry at its position.\<close>

definition current_bit :: "Wheel \<Rightarrow> int" where
  "current_bit w = wheel_data w ! nat (current_position w)"

text \<open>
  The aggregate value in the specification's words: the first bit is the least
  significant one.
\<close>

fun little_endian_value :: "int list \<Rightarrow> int" where
  "little_endian_value [] = 0"
| "little_endian_value (b # bs) = b + 2 * little_endian_value bs"

text \<open>
  What reading a bank needs of a wheel: a position that indexes the pattern, and a
  pattern made of bits.
\<close>

definition bit_readable :: "Wheel \<Rightarrow> bool" where
  "bit_readable w \<longleftrightarrow> 0 \<le> current_position w \<and> current_position w < int (length (wheel_data w))
      \<and> list_all is_bit (wheel_data w)"

section \<open>A concrete machine\<close>

text \<open>
  The small configuration of the specification's end-to-end scenario: K wheels
  \<open>[1,0,1]\<close> and \<open>[0,1,1]\<close>, S wheels \<open>[1,1]\<close> and \<open>[0,1]\<close>, motor wheels \<open>[1,0]\<close> and
  \<open>[1,1]\<close>, all at position 0, held at references 0 to 5.
\<close>

definition scenario_store :: store where
  "scenario_store =
     (\<lambda>_. \<lparr>wheel_name = ''unused'', wheel_data = [], wheel_size = 0, current_position = 0\<rparr>)
       (0 := \<lparr>wheel_name = ''k1'', wheel_data = [1, 0, 1], wheel_size = 3, current_position = 0\<rparr>,
        1 := \<lparr>wheel_name = ''k2'', wheel_data = [0, 1, 1], wheel_size = 3, current_position = 0\<rparr>,
        2 := \<lparr>wheel_name = ''s1'', wheel_data = [1, 1], wheel_size = 2, current_position = 0\<rparr>,
        3 := \<lparr>wheel_name = ''s2'', wheel_data = [0, 1], wheel_size = 2, current_position = 0\<rparr>,
        4 := \<lparr>wheel_name = ''m1'', wheel_data = [1, 0], wheel_size = 2, current_position = 0\<rparr>,
        5 := \<lparr>wheel_name = ''m2'', wheel_data = [1, 1], wheel_size = 2, current_position = 0\<rparr>)"

definition scenario_machine :: LorenzMachine where
  "scenario_machine = \<lparr>k_set = [0, 1], s_set = [2, 3], m_set = [4, 5]\<rparr>"

definition scenario_copy_store :: store where
  "scenario_copy_store =
     (\<lambda>_. \<lparr>wheel_name = ''unused'', wheel_data = [], wheel_size = 0, current_position = 0\<rparr>)
       (10 := \<lparr>wheel_name = ''a'', wheel_data = [1, 0, 1], wheel_size = 3, current_position = 0\<rparr>,
        11 := \<lparr>wheel_name = ''b'', wheel_data = [0, 1, 1], wheel_size = 3, current_position = 0\<rparr>,
        12 := \<lparr>wheel_name = ''c'', wheel_data = [1, 1], wheel_size = 2, current_position = 0\<rparr>,
        13 := \<lparr>wheel_name = ''d'', wheel_data = [0, 1], wheel_size = 2, current_position = 0\<rparr>,
        14 := \<lparr>wheel_name = ''e'', wheel_data = [1, 0], wheel_size = 2, current_position = 0\<rparr>,
        15 := \<lparr>wheel_name = ''f'', wheel_data = [1, 1], wheel_size = 2, current_position = 0\<rparr>)"

definition scenario_copy_machine :: LorenzMachine where
  "scenario_copy_machine = \<lparr>k_set = [10, 11], s_set = [12, 13], m_set = [14, 15]\<rparr>"

section \<open>Identically constructed machines\<close>

text \<open>
  Two wheels built from the same pattern, size and position (their names may differ), two
  banks whose wheels correspond place by place, and two machines whose three banks do.
\<close>

definition same_wheel :: "Wheel \<Rightarrow> Wheel \<Rightarrow> bool" where
  "same_wheel w1 w2 \<longleftrightarrow> wheel_data w1 = wheel_data w2 \<and> wheel_size w1 = wheel_size w2
     \<and> current_position w1 = current_position w2"

definition same_bank :: "store \<Rightarrow> WheelSet \<Rightarrow> store \<Rightarrow> WheelSet \<Rightarrow> bool" where
  "same_bank h1 rs1 h2 rs2 \<longleftrightarrow> list_all2 (\<lambda>a b. same_wheel (h1 a) (h2 b)) rs1 rs2"

definition same_configuration ::
  "LorenzMachine \<Rightarrow> store \<Rightarrow> LorenzMachine \<Rightarrow> store \<Rightarrow> bool" where
  "same_configuration M1 h1 M2 h2 \<longleftrightarrow>
     same_bank h1 (k_set M1) h2 (k_set M2) \<and> same_bank h1 (s_set M1) h2 (s_set M2)
     \<and> same_bank h1 (m_set M1) h2 (m_set M2)"

section \<open>Wheel: advancing\<close>

lemma Wheel_advance_n_position:
  "wheel_size w \<noteq> 0 \<Longrightarrow>
   Wheel_advance_n n w =
     Inr (if n = 0 then w
          else w\<lparr>current_position := (current_position w + int n) mod wheel_size w\<rparr>)"
proof (induction n arbitrary: w)
  case 0
  then show ?case by simp
next
  case (Suc n)
  let ?w' = "w\<lparr>current_position := (current_position w + 1) mod wheel_size w\<rparr>"
  have size': "wheel_size ?w' \<noteq> 0" using Suc.prems by simp
  have step: "Wheel_advance_n (Suc n) w = Wheel_advance_n n ?w'"
    using Suc.prems by (simp add: Wheel_advance_def)
  show ?case
  proof (cases "n = 0")
    case True
    then show ?thesis using step by simp
  next
    case False
    have "((current_position w + 1) mod wheel_size w + int n) mod wheel_size w
            = ((current_position w + 1) + int n) mod wheel_size w"
      by (rule mod_add_left_eq)
    also have "\<dots> = (current_position w + int (Suc n)) mod wheel_size w"
      by (simp add: add.assoc)
    finally have "((current_position w + 1) mod wheel_size w + int n) mod wheel_size w
            = (current_position w + int (Suc n)) mod wheel_size w" .
    then show ?thesis using step Suc.IH [OF size'] False by simp
  qed
qed

text \<open>
  C8. A wheel of size \<open>N \<ge> 1\<close> whose position lies in \<open>[0, N)\<close>: one advance succeeds, sets
  the position to \<open>(position + 1) mod N\<close> and changes no other attribute; \<open>N\<close> advances
  give back the wheel as it was, so its position and its current value are the original
  ones.
\<close>

theorem wheel_wraparound:
  assumes "position_valid w"
  shows "Wheel_advance w
           = Inr (w\<lparr>current_position := (current_position w + 1) mod wheel_size w\<rparr>)
       \<and> (\<forall>w'. Wheel_advance w = Inr w' \<longrightarrow>
             wheel_name w' = wheel_name w \<and> wheel_data w' = wheel_data w
             \<and> wheel_size w' = wheel_size w)
       \<and> Wheel_advance_n (nat (wheel_size w)) w = Inr w
       \<and> (\<forall>w'. Wheel_advance_n (nat (wheel_size w)) w = Inr w' \<longrightarrow>
             current_position w' = current_position w
             \<and> Wheel_get_current_value w' = Wheel_get_current_value w)"
proof -
  from assms have nz: "wheel_size w \<noteq> 0" and pos: "1 \<le> wheel_size w"
    and lo: "0 \<le> current_position w" and hi: "current_position w < wheel_size w"
    by (auto simp: position_valid_def)
  have one: "Wheel_advance w
           = Inr (w\<lparr>current_position := (current_position w + 1) mod wheel_size w\<rparr>)"
    using nz by (simp add: Wheel_advance_def)
  have "(current_position w + int (nat (wheel_size w))) mod wheel_size w = current_position w"
    using pos lo hi by simp
  then have full: "Wheel_advance_n (nat (wheel_size w)) w = Inr w"
    using Wheel_advance_n_position [OF nz, of "nat (wheel_size w)"] pos by simp
  show ?thesis using one full by auto
qed

theorem wheel_wraparound_witness:
  "position_valid \<lparr>wheel_name = ''k1'', wheel_data = [1, 0, 1], wheel_size = 3,
                   current_position = 2\<rparr>
   \<and> Wheel_advance \<lparr>wheel_name = ''k1'', wheel_data = [1, 0, 1], wheel_size = 3,
                    current_position = 2\<rparr>
       = Inr \<lparr>wheel_name = ''k1'', wheel_data = [1, 0, 1], wheel_size = 3,
              current_position = 0\<rparr>
   \<and> Wheel_advance_n 3 \<lparr>wheel_name = ''k1'', wheel_data = [1, 0, 1], wheel_size = 3,
                        current_position = 2\<rparr>
       = Inr \<lparr>wheel_name = ''k1'', wheel_data = [1, 0, 1], wheel_size = 3,
              current_position = 2\<rparr>"
proof -
  let ?w = "\<lparr>wheel_name = ''k1'', wheel_data = [1, 0, 1], wheel_size = 3,
             current_position = 2\<rparr>"
  have v: "position_valid ?w" by (simp add: position_valid_def)
  show ?thesis using v wheel_wraparound [OF v] by simp
qed

text \<open>
  C10. Whatever position a wheel was constructed with (negative, or at or beyond the
  size), as soon as its size is at least 1 a single advance succeeds and leaves the
  position in \<open>[0, size)\<close>; the same holds after any further number of advances.
\<close>

theorem advance_normalizes_position:
  assumes "1 \<le> wheel_size w"
  shows "(\<exists>w'. Wheel_advance w = Inr w' \<and> position_valid w')
       \<and> (\<forall>n. \<exists>w'. Wheel_advance_n (Suc n) w = Inr w' \<and> position_valid w')
       \<and> (\<forall>w'. position_valid w \<and> Wheel_advance w = Inr w' \<longrightarrow> position_valid w')"
proof -
  from assms have nz: "wheel_size w \<noteq> 0" by simp
  have range: "0 \<le> x mod wheel_size w \<and> x mod wheel_size w < wheel_size w" for x
    using assms by simp
  have one: "\<exists>w'. Wheel_advance w = Inr w' \<and> position_valid w'"
    using assms range by (simp add: Wheel_advance_def position_valid_def)
  have many: "\<exists>w'. Wheel_advance_n (Suc n) w = Inr w' \<and> position_valid w'" for n
    using Wheel_advance_n_position [OF nz, of "Suc n"] assms range
    by (simp add: position_valid_def del: Wheel_advance_n.simps)
  have keep: "position_valid w \<and> Wheel_advance w = Inr w' \<longrightarrow> position_valid w'" for w'
    using one by auto
  show ?thesis using one many keep by blast
qed

theorem advance_normalizes_position_witness:
  "(1::int) \<le> 3
   \<and> Wheel_advance \<lparr>wheel_name = ''s1'', wheel_data = [1, 0, 1], wheel_size = 3,
                    current_position = - 5\<rparr>
       = Inr \<lparr>wheel_name = ''s1'', wheel_data = [1, 0, 1], wheel_size = 3,
              current_position = 2\<rparr>
   \<and> position_valid \<lparr>wheel_name = ''s1'', wheel_data = [1, 0, 1], wheel_size = 3,
                     current_position = 2\<rparr>"
proof -
  let ?w = "\<lparr>wheel_name = ''s1'', wheel_data = [1, 0, 1], wheel_size = 3,
             current_position = - 5\<rparr>"
  have h: "1 \<le> wheel_size ?w" by simp
  have "\<exists>w'. Wheel_advance ?w = Inr w' \<and> position_valid w'"
    using advance_normalizes_position [OF h] by blast
  then show ?thesis by (simp add: Wheel_advance_def)
qed

section \<open>WheelSet: the aggregate value\<close>


lemma str_int_bit: "is_bit b \<Longrightarrow> str_int b = [if b = 1 then CHR ''1'' else CHR ''0'']"
  by (auto simp: is_bit_def str_int_def str_nat.simps [of 0] str_nat.simps [of "Suc 0"] digit_char_def)

lemma concat_str_int_bits:
  "list_all is_bit bs \<Longrightarrow>
   concat (map str_int bs) = map (\<lambda>b. if b = 1 then CHR ''1'' else CHR ''0'') bs"
  by (induction bs) (simp_all add: str_int_bit)

lemma parse_rev_bits:
  "list_all is_bit bs \<Longrightarrow>
   foldl (\<lambda>acc c. 2 * acc + bit_of_char c) 0
     (map (\<lambda>b. if b = 1 then CHR ''1'' else CHR ''0'') (rev bs)) = little_endian_value bs"
  by (induction bs) (auto simp: bit_of_char_def is_bit_def)

lemma py_int_base2_bits:
  assumes "bs \<noteq> []" and "list_all is_bit bs"
  shows "py_int_base2 (''0b'' @ concat (map str_int (rev bs))) = Inr (little_endian_value bs)"
proof -
  have rb: "list_all is_bit (rev bs)" using assms(2) by (simp add: list_all_iff)
  have digits: "list_all is_binary_digit
                  (map (\<lambda>b. if b = 1 then CHR ''1'' else CHR ''0'') (rev bs))"
    by (auto simp: list_all_iff is_binary_digit_def)
  show ?thesis
    using assms(1) digits parse_rev_bits [OF assms(2)]
    by (simp add: py_int_base2_def concat_str_int_bits [OF rb])
qed

lemma little_endian_value_bounds:
  "list_all is_bit bs \<Longrightarrow> 0 \<le> little_endian_value bs \<and> little_endian_value bs < 2 ^ length bs"
  by (induction bs) (auto simp: is_bit_def)


lemma Wheel_get_current_value_readable:
  "bit_readable w \<Longrightarrow> Wheel_get_current_value w = Inr (current_bit w) \<and> is_bit (current_bit w)"
  by (auto simp: bit_readable_def Wheel_get_current_value_def py_index_def current_bit_def list_all_length)

lemma current_values_readable:
  "list_all (\<lambda>r. bit_readable (h r)) rs \<Longrightarrow>
   current_values rs h = Inr (map (\<lambda>r. current_bit (h r)) rs)"
  by (induction rs) (simp_all add: Wheel_get_current_value_readable)

lemma current_bits_are_bits:
  "list_all (\<lambda>r. bit_readable (h r)) rs \<Longrightarrow> list_all is_bit (map (\<lambda>r. current_bit (h r)) rs)"
  by (induction rs) (simp_all add: Wheel_get_current_value_readable)

lemma WheelSet_get_current_value_readable:
  assumes "rs \<noteq> []" and "list_all (\<lambda>r. bit_readable (h r)) rs"
  shows "WheelSet_get_current_value rs h
           = Inr (little_endian_value (map (\<lambda>r. current_bit (h r)) rs))"
  using assms(1) py_int_base2_bits [OF _ current_bits_are_bits [OF assms(2)]]
  by (simp add: WheelSet_get_current_value_def current_values_readable [OF assms(2)])


lemma little_endian_value_sum:
  "little_endian_value bs = (\<Sum>i<length bs. bs ! i * 2 ^ i)"
proof (induction bs)
  case Nil
  then show ?case by simp
next
  case (Cons b bs)
  have "(\<Sum>i<length (b # bs). (b # bs) ! i * 2 ^ i)
          = b + (\<Sum>i<length bs. bs ! i * 2 ^ Suc i)"
    by (simp add: sum.lessThan_Suc_shift del: sum.lessThan_Suc)
  also have "(\<Sum>i<length bs. bs ! i * 2 ^ Suc i) = 2 * (\<Sum>i<length bs. bs ! i * 2 ^ i)"
    by (simp add: sum_distrib_left mult.assoc mult.left_commute)
  finally show ?case using Cons.IH by simp
qed

text \<open>
  C5. A non-empty bank whose wheels hold bit patterns and valid positions: the aggregate
  value is the sum of the wheels' current bits weighted by \<open>2 ^ i\<close>, \<open>i\<close> the wheel's place in
  the bank (the first wheel is the least significant bit), which is the little-endian
  value of the specification; it lies in \<open>[0, 2 ^ N)\<close>; current bits \<open>[1,0,1]\<close> give 5.
  The read returns a value and no store: it mutates no wheel.
\<close>

theorem aggregate_value_little_endian:
  assumes "rs \<noteq> []" and "list_all (\<lambda>r. bit_readable (h r)) rs"
  shows "WheelSet_get_current_value rs h
           = Inr (\<Sum>i<length rs. current_bit (h (rs ! i)) * 2 ^ i)
       \<and> WheelSet_get_current_value rs h
           = Inr (little_endian_value (map (\<lambda>r. current_bit (h r)) rs))
       \<and> 0 \<le> little_endian_value (map (\<lambda>r. current_bit (h r)) rs)
       \<and> little_endian_value (map (\<lambda>r. current_bit (h r)) rs) < 2 ^ length rs
       \<and> (map (\<lambda>r. current_bit (h r)) rs = [1, 0, 1]
            \<longrightarrow> WheelSet_get_current_value rs h = Inr 5)"
proof -
  let ?bits = "map (\<lambda>r. current_bit (h r)) rs"
  have val: "WheelSet_get_current_value rs h = Inr (little_endian_value ?bits)"
    by (rule WheelSet_get_current_value_readable [OF assms])
  have "little_endian_value ?bits = (\<Sum>i<length ?bits. ?bits ! i * 2 ^ i)"
    by (rule little_endian_value_sum)
  also have "\<dots> = (\<Sum>i<length rs. current_bit (h (rs ! i)) * 2 ^ i)"
    by simp
  finally have sum: "little_endian_value ?bits
                       = (\<Sum>i<length rs. current_bit (h (rs ! i)) * 2 ^ i)" .
  have bounds: "0 \<le> little_endian_value ?bits \<and> little_endian_value ?bits < 2 ^ length rs"
    using little_endian_value_bounds [OF current_bits_are_bits [OF assms(2)]] by simp
  have five: "?bits = [1, 0, 1] \<longrightarrow> WheelSet_get_current_value rs h = Inr 5"
    using val by simp
  show ?thesis using val sum bounds five by simp
qed

theorem aggregate_value_little_endian_witness:
  "[0, 3, 1] \<noteq> ([]::ref list)
   \<and> list_all (\<lambda>r. bit_readable (scenario_store r)) [0, 3, 1]
   \<and> map (\<lambda>r. current_bit (scenario_store r)) [0, 3, 1] = [1, 0, 0]
   \<and> WheelSet_get_current_value [0, 3, 1] scenario_store = Inr 1
   \<and> map (\<lambda>r. current_bit (scenario_store r)) [0, 1, 2] = [1, 0, 1]
   \<and> WheelSet_get_current_value [0, 1, 2] scenario_store = Inr 5"
proof -
  have ne: "[0, 1, 2] \<noteq> ([]::ref list)" by simp
  have rd: "list_all (\<lambda>r. bit_readable (scenario_store r)) [0, 1, 2]"
    by (simp add: scenario_store_def bit_readable_def is_bit_def)
  have bits: "map (\<lambda>r. current_bit (scenario_store r)) [0, 1, 2] = [1, 0, 1]"
    by (simp add: scenario_store_def current_bit_def)
  have ne': "[0, 3, 1] \<noteq> ([]::ref list)" by simp
  have rd': "list_all (\<lambda>r. bit_readable (scenario_store r)) [0, 3, 1]"
    by (simp add: scenario_store_def bit_readable_def is_bit_def)
  have bits': "map (\<lambda>r. current_bit (scenario_store r)) [0, 3, 1] = [1, 0, 0]"
    by (simp add: scenario_store_def current_bit_def)
  show ?thesis
    using aggregate_value_little_endian [OF ne rd] aggregate_value_little_endian [OF ne' rd']
      bits bits' rd' by simp
qed

section \<open>Banks in the store\<close>

lemma Wheel_advance_ok: "wheel_ok w \<Longrightarrow> \<exists>w'. Wheel_advance w = Inr w' \<and> wheel_ok w'"
  by (auto simp: wheel_ok_def position_valid_def Wheel_advance_def)

lemma Wheel_advance_keeps_ok: "wheel_ok w \<Longrightarrow> Wheel_advance w = Inr w' \<Longrightarrow> wheel_ok w'"
  using Wheel_advance_ok by fastforce

lemma wheel_ok_readable: "wheel_ok w \<Longrightarrow> bit_readable w"
  by (simp add: wheel_ok_def position_valid_def bit_readable_def)

lemma wheel_ok_value:
  "wheel_ok w \<Longrightarrow> Wheel_get_current_value w = Inr (current_bit w)"
  using Wheel_get_current_value_readable wheel_ok_readable by blast

subsection \<open>Advancing a bank\<close>

lemma WheelSet_advance_frame:
  "WheelSet_advance rs h = Inr h' \<Longrightarrow> r \<notin> set rs \<Longrightarrow> h' r = h r"
proof (induction rs arbitrary: h)
  case Nil
  then show ?case by simp
next
  case (Cons a rs)
  then show ?case by (auto split: sum.splits)
qed

lemma WheelSet_advance_distinct:
  "WheelSet_advance rs h = Inr h' \<Longrightarrow> distinct rs \<Longrightarrow> r \<in> set rs
     \<Longrightarrow> Wheel_advance (h r) = Inr (h' r)"
proof (induction rs arbitrary: h)
  case Nil
  then show ?case by simp
next
  case (Cons a rs)
  from Cons.prems(1) obtain w' where w': "Wheel_advance (h a) = Inr w'"
    and rest: "WheelSet_advance rs (h(a := w')) = Inr h'"
    by (auto split: sum.splits)
  show ?case
  proof (cases "r = a")
    case True
    have "h' a = (h(a := w')) a"
      using WheelSet_advance_frame [OF rest] Cons.prems(2) by simp
    then show ?thesis using True w' by simp
  next
    case False
    then have "r \<in> set rs" using Cons.prems(3) by simp
    then have "Wheel_advance ((h(a := w')) r) = Inr (h' r)"
      using Cons.IH [OF rest] Cons.prems(2) by simp
    then show ?thesis using False by simp
  qed
qed

lemma WheelSet_advance_ok:
  "list_all (\<lambda>r. wheel_ok (h r)) rs \<Longrightarrow>
   \<exists>h'. WheelSet_advance rs h = Inr h' \<and> (\<forall>r. wheel_ok (h r) \<longrightarrow> wheel_ok (h' r))"
proof (induction rs arbitrary: h)
  case Nil
  then show ?case by simp
next
  case (Cons a rs)
  from Cons.prems have oka: "wheel_ok (h a)" and okrs: "list_all (\<lambda>r. wheel_ok (h r)) rs"
    by simp_all
  from Wheel_advance_ok [OF oka] obtain w' where w': "Wheel_advance (h a) = Inr w'"
    and okw': "wheel_ok w'" by blast
  have keep: "wheel_ok (h r) \<longrightarrow> wheel_ok ((h(a := w')) r)" for r
    using okw' by simp
  have "list_all (\<lambda>r. wheel_ok ((h(a := w')) r)) rs"
    using okrs keep by (simp add: list_all_iff)
  from Cons.IH [OF this] obtain h' where h': "WheelSet_advance rs (h(a := w')) = Inr h'"
    and ok': "\<forall>r. wheel_ok ((h(a := w')) r) \<longrightarrow> wheel_ok (h' r)" by blast
  have "WheelSet_advance (a # rs) h = Inr h'" using w' h' by simp
  moreover have "\<forall>r. wheel_ok (h r) \<longrightarrow> wheel_ok (h' r)" using keep ok' by blast
  ultimately show ?case by blast
qed

subsection \<open>Advancing the motor bank\<close>

lemma MotorWheelSet_advance_two:
  assumes ok0: "wheel_ok (h r0)" and ok1: "wheel_ok (h r1)"
  shows "\<exists>w0 h'. Wheel_advance (h r0) = Inr w0 \<and> wheel_ok w0
           \<and> MotorWheelSet_advance (r0 # r1 # rest) h = Inr h'
           \<and> (current_bit w0 \<noteq> 1 \<longrightarrow> h' = h(r0 := w0))
           \<and> (current_bit w0 = 1 \<longrightarrow>
                 (\<exists>w1. Wheel_advance ((h(r0 := w0)) r1) = Inr w1 \<and> wheel_ok w1
                     \<and> h' = h(r0 := w0, r1 := w1)))"
proof -
  from Wheel_advance_ok [OF ok0] obtain w0 where w0: "Wheel_advance (h r0) = Inr w0"
    and okw0: "wheel_ok w0" by blast
  have v: "Wheel_get_current_value ((h(r0 := w0)) r0) = Inr (current_bit w0)"
    using wheel_ok_value [OF okw0] by simp
  have "wheel_ok ((h(r0 := w0)) r1)" using ok1 okw0 by simp
  from Wheel_advance_ok [OF this] obtain w1
    where w1: "Wheel_advance ((h(r0 := w0)) r1) = Inr w1" and okw1: "wheel_ok w1" by blast
  show ?thesis
  proof (cases "current_bit w0 = 1")
    case True
    have "MotorWheelSet_advance (r0 # r1 # rest) h = Inr (h(r0 := w0, r1 := w1))"
      using w0 v w1 True by (simp add: MotorWheelSet_advance_def py_index_def Let_def)
    then show ?thesis using w0 okw0 w1 okw1 True by blast
  next
    case False
    have "MotorWheelSet_advance (r0 # r1 # rest) h = Inr (h(r0 := w0))"
      using w0 v False by (simp add: MotorWheelSet_advance_def py_index_def Let_def)
    then show ?thesis using w0 okw0 False by blast
  qed
qed

lemma MotorWheelSet_advance_ok:
  assumes "wheel_ok (h r0)" and "wheel_ok (h r1)"
  shows "\<exists>h'. MotorWheelSet_advance (r0 # r1 # rest) h = Inr h'
           \<and> (\<forall>r. wheel_ok (h r) \<longrightarrow> wheel_ok (h' r))
           \<and> (\<forall>r. r \<noteq> r0 \<and> r \<noteq> r1 \<longrightarrow> h' r = h r)"
proof -
  from MotorWheelSet_advance_two [OF assms, of rest] obtain w0 h'
    where w0: "wheel_ok w0" and h': "MotorWheelSet_advance (r0 # r1 # rest) h = Inr h'"
      and off: "current_bit w0 \<noteq> 1 \<longrightarrow> h' = h(r0 := w0)"
      and on: "current_bit w0 = 1 \<longrightarrow>
                 (\<exists>w1. Wheel_advance ((h(r0 := w0)) r1) = Inr w1 \<and> wheel_ok w1
                     \<and> h' = h(r0 := w0, r1 := w1))"
    by blast
  have "(\<forall>r. wheel_ok (h r) \<longrightarrow> wheel_ok (h' r)) \<and> (\<forall>r. r \<noteq> r0 \<and> r \<noteq> r1 \<longrightarrow> h' r = h r)"
  proof (cases "current_bit w0 = 1")
    case True
    with on obtain w1 where "wheel_ok w1" and "h' = h(r0 := w0, r1 := w1)" by blast
    then show ?thesis using w0 by simp
  next
    case False
    with off have "h' = h(r0 := w0)" by blast
    then show ?thesis using w0 by simp
  qed
  then show ?thesis using h' by blast
qed

lemma MotorWheelSet_is_active_ok:
  "wheel_ok (h r1) \<Longrightarrow> MotorWheelSet_is_active (r0 # r1 # rest) h = Inr (current_bit (h r1) = 1)"
  by (simp add: MotorWheelSet_is_active_def py_index_def wheel_ok_value)

lemma MotorWheelSet_advance_step:
  assumes ne: "r0 \<noteq> r1" and ok0: "wheel_ok (h r0)" and ok1: "wheel_ok (h r1)"
  shows "\<exists>h'. MotorWheelSet_advance (r0 # r1 # rest) h = Inr h'
           \<and> Wheel_advance (h r0) = Inr (h' r0)
           \<and> wheel_ok (h' r0) \<and> wheel_ok (h' r1)
           \<and> (current_bit (h' r0) = 1 \<longrightarrow> Wheel_advance (h r1) = Inr (h' r1))
           \<and> (current_bit (h' r0) \<noteq> 1 \<longrightarrow> h' r1 = h r1)"
proof -
  from MotorWheelSet_advance_two [OF ok0 ok1, of rest] obtain w0 h'
    where w0: "Wheel_advance (h r0) = Inr w0" and okw0: "wheel_ok w0"
      and h': "MotorWheelSet_advance (r0 # r1 # rest) h = Inr h'"
      and off: "current_bit w0 \<noteq> 1 \<longrightarrow> h' = h(r0 := w0)"
      and on: "current_bit w0 = 1 \<longrightarrow>
                 (\<exists>w1. Wheel_advance ((h(r0 := w0)) r1) = Inr w1 \<and> wheel_ok w1
                     \<and> h' = h(r0 := w0, r1 := w1))"
    by blast
  show ?thesis
  proof (cases "current_bit w0 = 1")
    case True
    with on obtain w1 where w1: "Wheel_advance ((h(r0 := w0)) r1) = Inr w1"
      and okw1: "wheel_ok w1" and eq: "h' = h(r0 := w0, r1 := w1)" by blast
    have "h' r0 = w0" and "h' r1 = w1" and "Wheel_advance (h r1) = Inr w1"
      using eq ne w1 by simp_all
    then show ?thesis using h' w0 okw0 okw1 True by simp
  next
    case False
    with off have eq: "h' = h(r0 := w0)" by blast
    have "h' r0 = w0" and "h' r1 = h r1" using eq ne by simp_all
    then show ?thesis using h' w0 okw0 ok1 False by simp
  qed
qed

lemma wheel_ok_pattern_one:
  "wheel_ok w \<Longrightarrow> wheel_data w = [1] \<Longrightarrow> Wheel_advance w = Inr w' \<Longrightarrow>
   wheel_data w' = [1] \<and> current_bit w' = 1"
  by (auto simp: wheel_ok_def position_valid_def Wheel_advance_def current_bit_def)

lemma wheel_ok_pattern_zeros:
  "wheel_ok w \<Longrightarrow> wheel_data w = [0, 0] \<Longrightarrow> Wheel_advance w = Inr w' \<Longrightarrow>
   wheel_data w' = [0, 0] \<and> current_bit w' = 0"
proof -
  assume ok: "wheel_ok w" and d: "wheel_data w = [0, 0]" and a: "Wheel_advance w = Inr w'"
  have ok': "wheel_ok w'" using Wheel_advance_keeps_ok [OF ok a] .
  have d': "wheel_data w' = [0, 0]" using a d by (auto simp: Wheel_advance_def split: if_splits)
  have "nat (current_position w') < 2"
    using ok' d' by (auto simp: wheel_ok_def position_valid_def)
  then have "nat (current_position w') = 0 \<or> nat (current_position w') = 1" by auto
  then have "current_bit w' = 0" using d' by (auto simp: current_bit_def)
  then show ?thesis using d' by simp
qed

lemma motor_always_steps:
  assumes "r0 \<noteq> r1"
  shows "wheel_ok (h r0) \<Longrightarrow> wheel_ok (h r1) \<Longrightarrow> wheel_data (h r0) = [1] \<Longrightarrow>
         \<exists>hn. MotorWheelSet_advance_n n (r0 # r1 # rest) h = Inr hn
            \<and> Wheel_advance_n n (h r1) = Inr (hn r1)"
proof (induction n arbitrary: h)
  case 0
  then show ?case by simp
next
  case (Suc n)
  from MotorWheelSet_advance_step [OF assms Suc.prems(1,2), of rest] obtain h'
    where h': "MotorWheelSet_advance (r0 # r1 # rest) h = Inr h'"
      and a0: "Wheel_advance (h r0) = Inr (h' r0)"
      and ok0: "wheel_ok (h' r0)" and ok1: "wheel_ok (h' r1)"
      and on: "current_bit (h' r0) = 1 \<longrightarrow> Wheel_advance (h r1) = Inr (h' r1)"
    by blast
  from wheel_ok_pattern_one [OF Suc.prems(1,3) a0]
  have d: "wheel_data (h' r0) = [1]" and b: "current_bit (h' r0) = 1" by simp_all
  from on b have a1: "Wheel_advance (h r1) = Inr (h' r1)" by simp
  from Suc.IH [OF ok0 ok1 d] obtain hn
    where "MotorWheelSet_advance_n n (r0 # r1 # rest) h' = Inr hn"
      and "Wheel_advance_n n (h' r1) = Inr (hn r1)" by blast
  then show ?case using h' a1 by simp
qed

lemma motor_never_steps:
  assumes "r0 \<noteq> r1"
  shows "wheel_ok (h r0) \<Longrightarrow> wheel_ok (h r1) \<Longrightarrow> wheel_data (h r0) = [0, 0] \<Longrightarrow>
         \<exists>hn. MotorWheelSet_advance_n n (r0 # r1 # rest) h = Inr hn \<and> hn r1 = h r1"
proof (induction n arbitrary: h)
  case 0
  then show ?case by simp
next
  case (Suc n)
  from MotorWheelSet_advance_step [OF assms Suc.prems(1,2), of rest] obtain h'
    where h': "MotorWheelSet_advance (r0 # r1 # rest) h = Inr h'"
      and a0: "Wheel_advance (h r0) = Inr (h' r0)"
      and ok0: "wheel_ok (h' r0)" and ok1: "wheel_ok (h' r1)"
      and off: "current_bit (h' r0) \<noteq> 1 \<longrightarrow> h' r1 = h r1"
    by blast
  from wheel_ok_pattern_zeros [OF Suc.prems(1,3) a0]
  have d: "wheel_data (h' r0) = [0, 0]" and b: "current_bit (h' r0) = 0" by simp_all
  from off b have same: "h' r1 = h r1" by simp
  from Suc.IH [OF ok0 ok1 d] obtain hn
    where "MotorWheelSet_advance_n n (r0 # r1 # rest) h' = Inr hn" and "hn r1 = h' r1" by blast
  then show ?case using h' same by simp
qed

text \<open>
  C4. A motor bank whose first two wheels are valid and are two objects: an advance
  succeeds and advances wheel 0 by exactly one position; wheel 1 is advanced by one
  position when wheel 0's bit after that advance is 1 and is left as it was otherwise.
  The is-active signal is true exactly when wheel 1's current bit is 1. With wheel 0
  pattern \<open>[1]\<close> wheel 1 has been advanced \<open>n\<close> times after \<open>n\<close> cycles, for every \<open>n\<close>; with
  wheel 0 pattern \<open>[0,0]\<close> wheel 1 is untouched after any number of cycles.
\<close>

theorem motor_gating:
  assumes "r0 \<noteq> r1" and "wheel_ok (h r0)" and "wheel_ok (h r1)"
  shows "(\<exists>h'. MotorWheelSet_advance (r0 # r1 # rest) h = Inr h'
            \<and> Wheel_advance (h r0) = Inr (h' r0)
            \<and> (current_bit (h' r0) = 1 \<longrightarrow> Wheel_advance (h r1) = Inr (h' r1))
            \<and> (current_bit (h' r0) \<noteq> 1 \<longrightarrow> h' r1 = h r1))
       \<and> MotorWheelSet_is_active (r0 # r1 # rest) h = Inr (current_bit (h r1) = 1)
       \<and> (wheel_data (h r0) = [1] \<longrightarrow>
            (\<forall>n. \<exists>hn. MotorWheelSet_advance_n n (r0 # r1 # rest) h = Inr hn
                    \<and> Wheel_advance_n n (h r1) = Inr (hn r1)))
       \<and> (wheel_data (h r0) = [0, 0] \<longrightarrow>
            (\<forall>n. \<exists>hn. MotorWheelSet_advance_n n (r0 # r1 # rest) h = Inr hn
                    \<and> hn r1 = h r1))"
proof -
  have step: "\<exists>h'. MotorWheelSet_advance (r0 # r1 # rest) h = Inr h'
            \<and> Wheel_advance (h r0) = Inr (h' r0)
            \<and> (current_bit (h' r0) = 1 \<longrightarrow> Wheel_advance (h r1) = Inr (h' r1))
            \<and> (current_bit (h' r0) \<noteq> 1 \<longrightarrow> h' r1 = h r1)"
    using MotorWheelSet_advance_step [OF assms, of rest] by blast
  have act: "MotorWheelSet_is_active (r0 # r1 # rest) h = Inr (current_bit (h r1) = 1)"
    using assms(3) by (rule MotorWheelSet_is_active_ok)
  have always: "wheel_data (h r0) = [1] \<longrightarrow>
            (\<forall>n. \<exists>hn. MotorWheelSet_advance_n n (r0 # r1 # rest) h = Inr hn
                    \<and> Wheel_advance_n n (h r1) = Inr (hn r1))"
    using motor_always_steps [OF assms(1) assms(2) assms(3)] by blast
  have never: "wheel_data (h r0) = [0, 0] \<longrightarrow>
            (\<forall>n. \<exists>hn. MotorWheelSet_advance_n n (r0 # r1 # rest) h = Inr hn
                    \<and> hn r1 = h r1)"
    using motor_never_steps [OF assms(1) assms(2) assms(3)] by blast
  show ?thesis using step act always never by blast
qed

lemma scenario_ok: "machine_ok scenario_machine scenario_store"
  by (simp add: machine_ok_def scenario_machine_def scenario_store_def wheel_ok_def
      position_valid_def is_bit_def)

lemma scenario_no_sharing: "no_sharing scenario_machine"
  by (simp add: no_sharing_def scenario_machine_def)

theorem motor_gating_witness:
  "(4::ref) \<noteq> 5 \<and> wheel_ok (scenario_store 4) \<and> wheel_ok (scenario_store 5)
   \<and> MotorWheelSet_is_active [4, 5] scenario_store = Inr True
   \<and> map_sum id (\<lambda>h'. map (\<lambda>r. current_position (h' r)) [4, 5])
        (MotorWheelSet_advance [4, 5] scenario_store) = Inr [1, 0]"
proof -
  have ne: "(4::ref) \<noteq> 5" by simp
  have ok0: "wheel_ok (scenario_store 4)" and ok1: "wheel_ok (scenario_store 5)"
    by (simp_all add: scenario_store_def wheel_ok_def position_valid_def is_bit_def)
  have cb: "current_bit (scenario_store 5) = 1"
    by (simp add: scenario_store_def current_bit_def)
  have act: "MotorWheelSet_is_active [4, 5] scenario_store = Inr True"
    using motor_gating [OF ne ok0 ok1, of "[]"] cb by simp
  have adv: "map_sum id (\<lambda>h'. map (\<lambda>r. current_position (h' r)) [4, 5])
        (MotorWheelSet_advance [4, 5] scenario_store) = Inr [1, 0]"
    by (simp add: MotorWheelSet_advance_def py_index_def Wheel_advance_def
        Wheel_get_current_value_def scenario_store_def Let_def)
  show ?thesis using ne ok0 ok1 act adv by simp
qed

section \<open>The machine step\<close>

lemma LorenzMachine_advance_ok:
  assumes "machine_ok M h"
  shows "\<exists>h'. LorenzMachine_advance M h = Inr h' \<and> machine_ok M h'"
proof -
  from assms have kne: "k_set M \<noteq> []" and sne: "s_set M \<noteq> []" and m2: "2 \<le> length (m_set M)"
    and okk: "list_all (\<lambda>r. wheel_ok (h r)) (k_set M)"
    and oks: "list_all (\<lambda>r. wheel_ok (h r)) (s_set M)"
    and okm: "list_all (\<lambda>r. wheel_ok (h r)) (m_set M)"
    by (simp_all add: machine_ok_def)
  from m2 obtain r0 r1 rest where m: "m_set M = r0 # r1 # rest"
    by (cases "m_set M"; cases "tl (m_set M)") auto
  from WheelSet_advance_ok [OF okk] obtain h1
    where h1: "WheelSet_advance (k_set M) h = Inr h1"
      and keep1: "\<forall>r. wheel_ok (h r) \<longrightarrow> wheel_ok (h1 r)" by blast
  have "wheel_ok (h1 r0)" and "wheel_ok (h1 r1)" using okm m keep1 by simp_all
  from MotorWheelSet_advance_ok [OF this, of rest] obtain h2
    where h2: "MotorWheelSet_advance (m_set M) h1 = Inr h2"
      and keep2: "\<forall>r. wheel_ok (h1 r) \<longrightarrow> wheel_ok (h2 r)" using m by auto
  have "wheel_ok (h2 r1)" using okm m keep1 keep2 by simp
  then have act: "MotorWheelSet_is_active (m_set M) h2 = Inr (current_bit (h2 r1) = 1)"
    unfolding m by (rule MotorWheelSet_is_active_ok)
  have "list_all (\<lambda>r. wheel_ok (h2 r)) (s_set M)"
    using oks keep1 keep2 by (simp add: list_all_iff)
  from WheelSet_advance_ok [OF this] obtain h3
    where h3: "WheelSet_advance (s_set M) h2 = Inr h3"
      and keep3: "\<forall>r. wheel_ok (h2 r) \<longrightarrow> wheel_ok (h3 r)" by blast
  let ?h' = "if current_bit (h2 r1) = 1 then h3 else h2"
  have res: "LorenzMachine_advance M h = Inr ?h'"
    using h1 h2 act h3 by (simp add: LorenzMachine_advance_def)
  have "\<forall>r. wheel_ok (h r) \<longrightarrow> wheel_ok (?h' r)"
    using keep1 keep2 keep3 by simp
  then have "machine_ok M ?h'"
    using assms by (simp add: machine_ok_def list_all_iff)
  then show ?thesis using res by blast
qed

text \<open>
  C3. One machine step from a valid state in which every bank position holds its own
  wheel: the K bank is advanced, then the motor bank on the result, then the is-active
  signal is read from the store the motor advance left, and the S bank is advanced
  exactly when it is true. Every K wheel and motor wheel 0 end one position further;
  every S wheel ends one position further when the signal is true and is unchanged
  when it is false.
\<close>

theorem machine_step_order:
  assumes "machine_ok M h" and "no_sharing M"
  shows "\<exists>h1 h2 h3 active.
           WheelSet_advance (k_set M) h = Inr h1
         \<and> MotorWheelSet_advance (m_set M) h1 = Inr h2
         \<and> MotorWheelSet_is_active (m_set M) h2 = Inr active
         \<and> LorenzMachine_advance M h = Inr h3
         \<and> (active \<longrightarrow> WheelSet_advance (s_set M) h2 = Inr h3)
         \<and> (\<not> active \<longrightarrow> h3 = h2)
         \<and> active = (current_bit (h3 (m_set M ! 1)) = 1)
         \<and> (\<forall>r\<in>set (k_set M). Wheel_advance (h r) = Inr (h3 r))
         \<and> Wheel_advance (h (m_set M ! 0)) = Inr (h3 (m_set M ! 0))
         \<and> (active \<longrightarrow> (\<forall>r\<in>set (s_set M). Wheel_advance (h r) = Inr (h3 r)))
         \<and> (\<not> active \<longrightarrow> (\<forall>r\<in>set (s_set M). h3 r = h r))"
proof -
  from assms(1) have m2: "2 \<le> length (m_set M)"
    and okk: "list_all (\<lambda>r. wheel_ok (h r)) (k_set M)"
    and oks: "list_all (\<lambda>r. wheel_ok (h r)) (s_set M)"
    and okm: "list_all (\<lambda>r. wheel_ok (h r)) (m_set M)"
    by (simp_all add: machine_ok_def)
  from m2 obtain r0 r1 rest where m: "m_set M = r0 # r1 # rest"
    by (cases "m_set M"; cases "tl (m_set M)") auto
  from assms(2) m have dk: "distinct (k_set M)" and ds: "distinct (s_set M)"
    and ne: "r0 \<noteq> r1"
    and r0k: "r0 \<notin> set (k_set M)" and r1k: "r1 \<notin> set (k_set M)"
    and r0s: "r0 \<notin> set (s_set M)" and r1s: "r1 \<notin> set (s_set M)"
    and ks: "set (k_set M) \<inter> set (s_set M) = {}"
    by (auto simp: no_sharing_def)
  from WheelSet_advance_ok [OF okk] obtain h1
    where h1: "WheelSet_advance (k_set M) h = Inr h1"
      and keep1: "\<forall>r. wheel_ok (h r) \<longrightarrow> wheel_ok (h1 r)" by blast
  have fr1: "r \<notin> set (k_set M) \<Longrightarrow> h1 r = h r" for r
    using WheelSet_advance_frame [OF h1] by simp
  have adv1: "r \<in> set (k_set M) \<Longrightarrow> Wheel_advance (h r) = Inr (h1 r)" for r
    using WheelSet_advance_distinct [OF h1 dk] by simp
  have ok10: "wheel_ok (h1 r0)" and ok11: "wheel_ok (h1 r1)" using okm m keep1 by simp_all
  from MotorWheelSet_advance_step [OF ne ok10 ok11, of rest] obtain h2
    where h2: "MotorWheelSet_advance (m_set M) h1 = Inr h2"
      and a0: "Wheel_advance (h1 r0) = Inr (h2 r0)"
      and ok21: "wheel_ok (h2 r1)"
    using m by auto
  from MotorWheelSet_advance_ok [OF ok10 ok11, of rest] h2 m
  have keep2: "\<forall>r. wheel_ok (h1 r) \<longrightarrow> wheel_ok (h2 r)"
    and fr2: "\<forall>r. r \<noteq> r0 \<and> r \<noteq> r1 \<longrightarrow> h2 r = h1 r" by auto
  have act: "MotorWheelSet_is_active (m_set M) h2 = Inr (current_bit (h2 r1) = 1)"
    unfolding m using ok21 by (rule MotorWheelSet_is_active_ok)
  have oks2: "list_all (\<lambda>r. wheel_ok (h2 r)) (s_set M)"
    using oks keep1 keep2 by (simp add: list_all_iff)
  from WheelSet_advance_ok [OF oks2] obtain hs
    where hs: "WheelSet_advance (s_set M) h2 = Inr hs" by blast
  have fr3: "r \<notin> set (s_set M) \<Longrightarrow> hs r = h2 r" for r
    using WheelSet_advance_frame [OF hs] by simp
  have adv3: "r \<in> set (s_set M) \<Longrightarrow> Wheel_advance (h2 r) = Inr (hs r)" for r
    using WheelSet_advance_distinct [OF hs ds] by simp
  have s_same: "h2 r = h r" if "r \<in> set (s_set M)" for r
  proof -
    from that ks have "r \<notin> set (k_set M)" by auto
    moreover from that r0s r1s have "r \<noteq> r0 \<and> r \<noteq> r1" by auto
    ultimately show ?thesis using fr1 fr2 by simp
  qed
  have k_same: "h2 r = h1 r" if "r \<in> set (k_set M)" for r
  proof -
    from that r0k r1k have "r \<noteq> r0 \<and> r \<noteq> r1" by auto
    then show ?thesis using fr2 by simp
  qed
  have k_out: "r \<in> set (k_set M) \<Longrightarrow> r \<notin> set (s_set M)" for r
    using ks by auto
  let ?active = "current_bit (h2 r1) = 1"
  let ?h3 = "if ?active then hs else h2"
  have res: "LorenzMachine_advance M h = Inr ?h3"
    using h1 h2 act hs by (simp add: LorenzMachine_advance_def)
  have c1: "?active \<longrightarrow> WheelSet_advance (s_set M) h2 = Inr ?h3" using hs by simp
  have c2: "\<not> ?active \<longrightarrow> ?h3 = h2" by simp
  have h3r1: "?h3 r1 = h2 r1" using fr3 [OF r1s] by simp
  have h3r0: "?h3 r0 = h2 r0" using fr3 [OF r0s] by simp
  have c3: "?active = (current_bit (?h3 (m_set M ! 1)) = 1)"
    using h3r1 m by simp
  have c4: "\<forall>r\<in>set (k_set M). Wheel_advance (h r) = Inr (?h3 r)"
    using adv1 k_same k_out fr3 by simp
  have c5: "Wheel_advance (h (m_set M ! 0)) = Inr (?h3 (m_set M ! 0))"
    using a0 fr1 [OF r0k] h3r0 m by simp
  have c6: "?active \<longrightarrow> (\<forall>r\<in>set (s_set M). Wheel_advance (h r) = Inr (?h3 r))"
    using adv3 s_same by auto
  have c7: "\<not> ?active \<longrightarrow> (\<forall>r\<in>set (s_set M). ?h3 r = h r)"
    using s_same by simp
  show ?thesis
    using h1 h2 act res c1 c2 c3 c4 c5 c6 c7 by blast
qed

section \<open>Encrypting\<close>

lemma WheelSet_get_current_value_ok:
  assumes "rs \<noteq> []" and "list_all (\<lambda>r. wheel_ok (h r)) rs"
  shows "\<exists>v. WheelSet_get_current_value rs h = Inr v"
proof -
  have "list_all (\<lambda>r. bit_readable (h r)) rs"
    using assms(2) wheel_ok_readable by (simp add: list_all_iff)
  from WheelSet_get_current_value_readable [OF assms(1) this] show ?thesis by blast
qed

lemma LorenzMachine_encrypt_character_ok:
  assumes "machine_ok M h"
  shows "\<exists>k s h'. WheelSet_get_current_value (k_set M) h = Inr k
           \<and> WheelSet_get_current_value (s_set M) h = Inr s
           \<and> LorenzMachine_advance M h = Inr h' \<and> machine_ok M h'
           \<and> (\<forall>c. LorenzMachine_encrypt_character M c h = Inr (c XOR (k XOR s), h'))"
proof -
  from assms have kne: "k_set M \<noteq> []" and sne: "s_set M \<noteq> []"
    and okk: "list_all (\<lambda>r. wheel_ok (h r)) (k_set M)"
    and oks: "list_all (\<lambda>r. wheel_ok (h r)) (s_set M)"
    by (simp_all add: machine_ok_def)
  from WheelSet_get_current_value_ok [OF kne okk] obtain k
    where k: "WheelSet_get_current_value (k_set M) h = Inr k" by blast
  from WheelSet_get_current_value_ok [OF sne oks] obtain s
    where s: "WheelSet_get_current_value (s_set M) h = Inr s" by blast
  from LorenzMachine_advance_ok [OF assms] obtain h'
    where h': "LorenzMachine_advance M h = Inr h'" and ok': "machine_ok M h'" by blast
  have "LorenzMachine_encrypt_character M c h = Inr (c XOR (k XOR s), h')" for c
    using k s h' by (simp add: LorenzMachine_encrypt_character_def xor.assoc)
  then show ?thesis using k s h' ok' by blast
qed

lemma encrypt_characters_keystream:
  "machine_ok M h \<Longrightarrow>
   \<exists>out hn. encrypt_characters M C h = Inr (out, hn) \<and> length out = length C
      \<and> LorenzMachine_advance_n (length C) M h = Inr hn \<and> machine_ok M hn
      \<and> (\<forall>i<length C. \<exists>hi k s. LorenzMachine_advance_n i M h = Inr hi
            \<and> WheelSet_get_current_value (k_set M) hi = Inr k
            \<and> WheelSet_get_current_value (s_set M) hi = Inr s
            \<and> out ! i = (C ! i) XOR (k XOR s))"
proof (induction C arbitrary: h)
  case Nil
  then show ?case by simp
next
  case (Cons c cs)
  from LorenzMachine_encrypt_character_ok [OF Cons.prems] obtain k s h1
    where k: "WheelSet_get_current_value (k_set M) h = Inr k"
      and s: "WheelSet_get_current_value (s_set M) h = Inr s"
      and h1: "LorenzMachine_advance M h = Inr h1" and ok1: "machine_ok M h1"
      and enc: "LorenzMachine_encrypt_character M c h = Inr (c XOR (k XOR s), h1)"
    by blast
  from Cons.IH [OF ok1] obtain out hn
    where rest: "encrypt_characters M cs h1 = Inr (out, hn)" and len: "length out = length cs"
      and adv: "LorenzMachine_advance_n (length cs) M h1 = Inr hn" and okn: "machine_ok M hn"
      and ks: "\<forall>i<length cs. \<exists>hi k s. LorenzMachine_advance_n i M h1 = Inr hi
            \<and> WheelSet_get_current_value (k_set M) hi = Inr k
            \<and> WheelSet_get_current_value (s_set M) hi = Inr s
            \<and> out ! i = (cs ! i) XOR (k XOR s)"
    by blast
  let ?out = "(c XOR (k XOR s)) # out"
  have e: "encrypt_characters M (c # cs) h = Inr (?out, hn)" using enc rest by simp
  have l: "length ?out = length (c # cs)" using len by simp
  have a: "LorenzMachine_advance_n (length (c # cs)) M h = Inr hn" using h1 adv by simp
  have "\<exists>hi k s. LorenzMachine_advance_n i M h = Inr hi
            \<and> WheelSet_get_current_value (k_set M) hi = Inr k
            \<and> WheelSet_get_current_value (s_set M) hi = Inr s
            \<and> ?out ! i = ((c # cs) ! i) XOR (k XOR s)" if "i < length (c # cs)" for i
  proof (cases i)
    case 0
    then show ?thesis using k s by simp
  next
    case (Suc j)
    with that have "j < length cs" by simp
    with ks have "\<exists>hi k s. LorenzMachine_advance_n j M h1 = Inr hi
            \<and> WheelSet_get_current_value (k_set M) hi = Inr k
            \<and> WheelSet_get_current_value (s_set M) hi = Inr s
            \<and> out ! j = (cs ! j) XOR (k XOR s)" by blast
    then show ?thesis using Suc h1 by simp
  qed
  then show ?case using e l a okn by blast
qed

lemma xor_twice: "(c XOR x) XOR x = (c::int)"
  by (simp add: xor.assoc)

lemma encrypt_characters_self_inverse:
  "machine_ok M h \<Longrightarrow>
   \<exists>out h'. encrypt_characters M C h = Inr (out, h')
      \<and> encrypt_characters M out h = Inr (C, h')"
proof (induction C arbitrary: h)
  case Nil
  then show ?case by simp
next
  case (Cons c cs)
  from LorenzMachine_encrypt_character_ok [OF Cons.prems] obtain k s h1
    where ok1: "machine_ok M h1"
      and enc: "\<forall>c. LorenzMachine_encrypt_character M c h = Inr (c XOR (k XOR s), h1)"
    by blast
  from Cons.IH [OF ok1] obtain out h'
    where fwd: "encrypt_characters M cs h1 = Inr (out, h')"
      and bwd: "encrypt_characters M out h1 = Inr (cs, h')" by blast
  let ?x = "c XOR (k XOR s)"
  have "encrypt_characters M (c # cs) h = Inr (?x # out, h')" using enc fwd by simp
  moreover have "encrypt_characters M (?x # out) h = Inr (c # cs, h')"
    using enc bwd by (simp add: xor_twice)
  ultimately show ?case by blast
qed

section \<open>Two machines of the same configuration\<close>

lemma same_wheel_advance:
  "same_wheel w1 w2 \<Longrightarrow> rel_sum (=) same_wheel (Wheel_advance w1) (Wheel_advance w2)"
  by (simp add: same_wheel_def Wheel_advance_def)

lemma same_wheel_value:
  "same_wheel w1 w2 \<Longrightarrow> Wheel_get_current_value w1 = Wheel_get_current_value w2"
  by (simp add: same_wheel_def Wheel_get_current_value_def)

lemma same_bank_Nil [simp]: "same_bank h1 [] h2 []"
  by (simp add: same_bank_def)

lemma same_bank_Cons [simp]:
  "same_bank h1 (a # rs1) h2 (b # rs2)
     \<longleftrightarrow> same_wheel (h1 a) (h2 b) \<and> same_bank h1 rs1 h2 rs2"
  by (simp add: same_bank_def)

lemma same_bank_length: "same_bank h1 rs1 h2 rs2 \<Longrightarrow> length rs1 = length rs2"
  by (simp add: same_bank_def list_all2_lengthD)

lemma same_bank_unchanged:
  assumes "same_bank h1 rs1 h2 rs2"
    and "\<forall>r\<in>set rs1. g1 r = h1 r" and "\<forall>r\<in>set rs2. g2 r = h2 r"
  shows "same_bank g1 rs1 g2 rs2"
proof -
  have "length rs1 = length rs2" using assms(1) by (rule same_bank_length)
  then show ?thesis using assms
    by (induction rs1 rs2 rule: list_induct2) simp_all
qed

lemma same_bank_values:
  assumes "same_bank h1 rs1 h2 rs2"
  shows "current_values rs1 h1 = current_values rs2 h2"
proof -
  have "length rs1 = length rs2" using assms by (rule same_bank_length)
  then show ?thesis using assms
    by (induction rs1 rs2 rule: list_induct2) (auto dest!: same_wheel_value split: sum.splits)
qed

lemma same_bank_aggregate:
  "same_bank h1 rs1 h2 rs2 \<Longrightarrow>
   WheelSet_get_current_value rs1 h1 = WheelSet_get_current_value rs2 h2"
  by (simp add: WheelSet_get_current_value_def same_bank_values)

lemma same_bank_advance:
  assumes "length rs1 = length rs2"
  shows "same_bank h1 rs1 h2 rs2 \<Longrightarrow> distinct rs1 \<Longrightarrow> distinct rs2 \<Longrightarrow>
         rel_sum (=) (\<lambda>g1 g2. same_bank g1 rs1 g2 rs2)
           (WheelSet_advance rs1 h1) (WheelSet_advance rs2 h2)"
  using assms
proof (induction rs1 rs2 arbitrary: h1 h2 rule: list_induct2)
  case Nil
  then show ?case by simp
next
  case (Cons a rs1 b rs2)
  from Cons.prems have sw: "same_wheel (h1 a) (h2 b)" and sb: "same_bank h1 rs1 h2 rs2"
    and a: "a \<notin> set rs1" and b: "b \<notin> set rs2" and d1: "distinct rs1" and d2: "distinct rs2"
    by simp_all
  show ?case
  proof (cases "Wheel_advance (h1 a)")
    case (Inl e)
    then show ?thesis using same_wheel_advance [OF sw] by (cases "Wheel_advance (h2 b)") simp_all
  next
    case (Inr w1)
    with same_wheel_advance [OF sw] obtain w2 where w2: "Wheel_advance (h2 b) = Inr w2"
      and sw': "same_wheel w1 w2" by (cases "Wheel_advance (h2 b)") simp_all
    have sb': "same_bank (h1(a := w1)) rs1 (h2(b := w2)) rs2"
      using same_bank_unchanged [OF sb] a b by simp
    from Cons.IH [OF sb' d1 d2]
    have ih: "rel_sum (=) (\<lambda>g1 g2. same_bank g1 rs1 g2 rs2)
                (WheelSet_advance rs1 (h1(a := w1))) (WheelSet_advance rs2 (h2(b := w2)))" .
    show ?thesis
    proof (cases "WheelSet_advance rs1 (h1(a := w1))")
      case (Inl e)
      then show ?thesis using ih Inr w2
        by (cases "WheelSet_advance rs2 (h2(b := w2))") simp_all
    next
      case g1: (Inr g1)
      with ih obtain g2 where g2: "WheelSet_advance rs2 (h2(b := w2)) = Inr g2"
        and sg: "same_bank g1 rs1 g2 rs2"
        by (cases "WheelSet_advance rs2 (h2(b := w2))") simp_all
      have "g1 a = w1" using WheelSet_advance_frame [OF g1 a] by simp
      moreover have "g2 b = w2" using WheelSet_advance_frame [OF g2 b] by simp
      ultimately show ?thesis using Inr w2 g1 g2 sg sw' by simp
    qed
  qed
qed

lemma rel_sum_cases:
  assumes "rel_sum (=) R x y"
  obtains (fails) e where "x = Inl e" and "y = Inl e"
        | (returns) a b where "x = Inr a" and "y = Inr b" and "R a b"
  using assms by (cases x; cases y) simp_all

lemma MotorWheelSet_advance_Nil: "MotorWheelSet_advance [] h = Inl IndexError"
  by (simp add: MotorWheelSet_advance_def py_index_def)

lemma MotorWheelSet_advance_Cons:
  "MotorWheelSet_advance (r0 # rest) h =
     (case Wheel_advance (h r0) of
        Inl e \<Rightarrow> Inl e
      | Inr w0 \<Rightarrow>
          (case Wheel_get_current_value w0 of
             Inl e \<Rightarrow> Inl e
           | Inr v \<Rightarrow>
               if v = 1
               then (case rest of
                       [] \<Rightarrow> Inl IndexError
                     | r1 # _ \<Rightarrow>
                         (case Wheel_advance ((h(r0 := w0)) r1) of
                            Inl e \<Rightarrow> Inl e
                          | Inr w1 \<Rightarrow> Inr (h(r0 := w0, r1 := w1))))
               else Inr (h(r0 := w0))))"
  by (cases rest) (simp_all add: MotorWheelSet_advance_def py_index_def Let_def split: sum.splits)

lemma MotorWheelSet_advance_frame:
  "MotorWheelSet_advance ws h = Inr h' \<Longrightarrow> r \<notin> set ws \<Longrightarrow> h' r = h r"
  by (cases ws)
    (auto simp: MotorWheelSet_advance_Nil MotorWheelSet_advance_Cons
      split: sum.splits if_splits list.splits)

lemma MotorWheelSet_is_active_short:
  "length ws < 2 \<Longrightarrow> MotorWheelSet_is_active ws h = Inl IndexError"
  by (simp add: MotorWheelSet_is_active_def py_index_def)

lemma MotorWheelSet_is_active_Cons:
  "MotorWheelSet_is_active (r0 # r1 # rest) h =
     (case Wheel_get_current_value (h r1) of Inl e \<Rightarrow> Inl e | Inr v \<Rightarrow> Inr (v = 1))"
  by (simp add: MotorWheelSet_is_active_def py_index_def)

lemma same_bank_is_active:
  assumes "same_bank h1 ws1 h2 ws2"
  shows "MotorWheelSet_is_active ws1 h1 = MotorWheelSet_is_active ws2 h2"
proof (cases "length ws1 < 2")
  case True
  then have "length ws2 < 2" using same_bank_length [OF assms] by simp
  then show ?thesis using True by (simp add: MotorWheelSet_is_active_short)
next
  case False
  then obtain a0 a1 arest where ws1: "ws1 = a0 # a1 # arest"
    by (cases ws1; cases "tl ws1") auto
  from False same_bank_length [OF assms] obtain b0 b1 brest where ws2: "ws2 = b0 # b1 # brest"
    by (cases ws2; cases "tl ws2") auto
  have "same_wheel (h1 a1) (h2 b1)" using assms ws1 ws2 by simp
  then show ?thesis using ws1 ws2
    by (simp add: MotorWheelSet_is_active_Cons same_wheel_value)
qed

lemma same_bank_motor_advance:
  assumes sb: "same_bank h1 ws1 h2 ws2" and d1: "distinct ws1" and d2: "distinct ws2"
  shows "rel_sum (=) (\<lambda>g1 g2. same_bank g1 ws1 g2 ws2)
           (MotorWheelSet_advance ws1 h1) (MotorWheelSet_advance ws2 h2)"
proof (cases ws1)
  case Nil
  then have "ws2 = []" using same_bank_length [OF sb] by simp
  then show ?thesis using Nil by (simp add: MotorWheelSet_advance_Nil)
next
  case (Cons a rest1)
  with same_bank_length [OF sb] obtain b rest2 where ws2: "ws2 = b # rest2"
    by (cases ws2) auto
  from sb Cons ws2 have sw: "same_wheel (h1 a) (h2 b)" and sr: "same_bank h1 rest1 h2 rest2"
    by simp_all
  from d1 d2 Cons ws2 have a: "a \<notin> set rest1" and b: "b \<notin> set rest2" by simp_all
  from same_wheel_advance [OF sw] show ?thesis
  proof (cases rule: rel_sum_cases)
    case (fails e)
    then show ?thesis using Cons ws2 by (simp add: MotorWheelSet_advance_Cons)
  next
    case (returns w1 w2)
    note v = same_wheel_value [OF returns(3)]
    have sr': "same_bank (h1(a := w1)) rest1 (h2(b := w2)) rest2"
      using same_bank_unchanged [OF sr] a b by simp
    show ?thesis
    proof (cases "Wheel_get_current_value w1")
      case (Inl e)
      then show ?thesis using Cons ws2 returns v by (simp add: MotorWheelSet_advance_Cons)
    next
      case (Inr bitv)
      have v2: "Wheel_get_current_value w2 = Inr bitv" using v Inr by simp
      show ?thesis
      proof (cases "bitv = 1")
        case False
        then show ?thesis using Cons ws2 returns v2 Inr sr'
          by (simp add: MotorWheelSet_advance_Cons)
      next
        case True
        show ?thesis
        proof (cases rest1)
          case Nil
          then have "rest2 = []" using same_bank_length [OF sr] by simp
          then show ?thesis using Nil Cons ws2 returns v2 Inr True
            by (simp add: MotorWheelSet_advance_Cons)
        next
          case r1: (Cons a' tl1)
          with same_bank_length [OF sr] obtain b' tl2 where r2: "rest2 = b' # tl2"
            by (cases rest2) auto
          from sr' r1 r2 have sw2: "same_wheel ((h1(a := w1)) a') ((h2(b := w2)) b')"
            and st: "same_bank (h1(a := w1)) tl1 (h2(b := w2)) tl2" by simp_all
          from d1 d2 Cons ws2 r1 r2 have na: "a \<noteq> a'" and nb: "b \<noteq> b'"
            and a't: "a' \<notin> set tl1" and b't: "b' \<notin> set tl2" by auto
          from same_wheel_advance [OF sw2] show ?thesis
          proof (cases rule: rel_sum_cases)
            case (fails e)
            then show ?thesis using Cons ws2 returns v2 Inr True r1 r2
              by (simp add: MotorWheelSet_advance_Cons)
          next
            case second: (returns w1' w2')
            have st': "same_bank (h1(a := w1, a' := w1')) tl1 (h2(b := w2, b' := w2')) tl2"
              using same_bank_unchanged [OF st] a't b't by simp
            have res1: "MotorWheelSet_advance ws1 h1 = Inr (h1(a := w1, a' := w1'))"
              using Cons returns(1) Inr True r1 second(1)
              by (simp add: MotorWheelSet_advance_Cons)
            have res2: "MotorWheelSet_advance ws2 h2 = Inr (h2(b := w2, b' := w2'))"
              using ws2 returns(2) v2 True r2 second(2)
              by (simp add: MotorWheelSet_advance_Cons)
            have "same_bank (h1(a := w1, a' := w1')) ws1 (h2(b := w2, b' := w2')) ws2"
              using Cons ws2 r1 r2 na nb returns(3) second(3) st' by simp
            then show ?thesis using res1 res2 by simp
          qed
        qed
      qed
    qed
  qed
qed

lemma same_configuration_advance:
  assumes sc: "same_configuration M1 h1 M2 h2" and n1: "no_sharing M1" and n2: "no_sharing M2"
  shows "rel_sum (=) (\<lambda>g1 g2. same_configuration M1 g1 M2 g2)
           (LorenzMachine_advance M1 h1) (LorenzMachine_advance M2 h2)"
proof -
  from sc have sk: "same_bank h1 (k_set M1) h2 (k_set M2)"
    and ss: "same_bank h1 (s_set M1) h2 (s_set M2)"
    and sm: "same_bank h1 (m_set M1) h2 (m_set M2)"
    by (simp_all add: same_configuration_def)
  from n1 have dk1: "distinct (k_set M1)" and ds1: "distinct (s_set M1)"
    and dm1: "distinct (m_set M1)"
    and ks1: "set (k_set M1) \<inter> set (s_set M1) = {}"
    and km1: "set (k_set M1) \<inter> set (m_set M1) = {}"
    and sm1: "set (s_set M1) \<inter> set (m_set M1) = {}"
    by (auto simp: no_sharing_def)
  from n2 have dk2: "distinct (k_set M2)" and ds2: "distinct (s_set M2)"
    and dm2: "distinct (m_set M2)"
    and ks2: "set (k_set M2) \<inter> set (s_set M2) = {}"
    and km2: "set (k_set M2) \<inter> set (m_set M2) = {}"
    and sm2: "set (s_set M2) \<inter> set (m_set M2) = {}"
    by (auto simp: no_sharing_def)
  from same_bank_advance [OF same_bank_length [OF sk] sk dk1 dk2] show ?thesis
  proof (cases rule: rel_sum_cases)
    case (fails e)
    then show ?thesis by (simp add: LorenzMachine_advance_def)
  next
    case kstep: (returns a1 a2)
    have fa1: "\<forall>r. r \<notin> set (k_set M1) \<longrightarrow> a1 r = h1 r"
      using WheelSet_advance_frame [OF kstep(1)] by simp
    have fa2: "\<forall>r. r \<notin> set (k_set M2) \<longrightarrow> a2 r = h2 r"
      using WheelSet_advance_frame [OF kstep(2)] by simp
    have ss_a: "same_bank a1 (s_set M1) a2 (s_set M2)"
      using same_bank_unchanged [OF ss] fa1 fa2 ks1 ks2 by blast
    have sm_a: "same_bank a1 (m_set M1) a2 (m_set M2)"
      using same_bank_unchanged [OF sm] fa1 fa2 km1 km2 by blast
    from same_bank_motor_advance [OF sm_a dm1 dm2] show ?thesis
    proof (cases rule: rel_sum_cases)
      case (fails e)
      then show ?thesis using kstep by (simp add: LorenzMachine_advance_def)
    next
      case mstep: (returns b1 b2)
      have fb1: "\<forall>r. r \<notin> set (m_set M1) \<longrightarrow> b1 r = a1 r"
        using MotorWheelSet_advance_frame [OF mstep(1)] by simp
      have fb2: "\<forall>r. r \<notin> set (m_set M2) \<longrightarrow> b2 r = a2 r"
        using MotorWheelSet_advance_frame [OF mstep(2)] by simp
      have sk_b: "same_bank b1 (k_set M1) b2 (k_set M2)"
        using same_bank_unchanged [OF kstep(3)] fb1 fb2 km1 km2 by blast
      have ss_b: "same_bank b1 (s_set M1) b2 (s_set M2)"
        using same_bank_unchanged [OF ss_a] fb1 fb2 sm1 sm2 by blast
      note act = same_bank_is_active [OF mstep(3)]
      show ?thesis
      proof (cases "MotorWheelSet_is_active (m_set M1) b1")
        case (Inl e)
        then show ?thesis using kstep mstep act by (simp add: LorenzMachine_advance_def)
      next
        case (Inr active)
        then have act2: "MotorWheelSet_is_active (m_set M2) b2 = Inr active"
          using act by simp
        show ?thesis
        proof (cases active)
          case False
          have "same_configuration M1 b1 M2 b2"
            using sk_b ss_b mstep(3) by (simp add: same_configuration_def)
          then show ?thesis using kstep mstep Inr act2 False
            by (simp add: LorenzMachine_advance_def)
        next
          case True
          from same_bank_advance [OF same_bank_length [OF ss_b] ss_b ds1 ds2] show ?thesis
          proof (cases rule: rel_sum_cases)
            case (fails e)
            then show ?thesis using kstep mstep Inr act2 True
              by (simp add: LorenzMachine_advance_def)
          next
            case sstep: (returns c1 c2)
            have fc1: "\<forall>r. r \<notin> set (s_set M1) \<longrightarrow> c1 r = b1 r"
              using WheelSet_advance_frame [OF sstep(1)] by simp
            have fc2: "\<forall>r. r \<notin> set (s_set M2) \<longrightarrow> c2 r = b2 r"
              using WheelSet_advance_frame [OF sstep(2)] by simp
            have sk_c: "same_bank c1 (k_set M1) c2 (k_set M2)"
              using same_bank_unchanged [OF sk_b] fc1 fc2 ks1 ks2 by blast
            have sm_c: "same_bank c1 (m_set M1) c2 (m_set M2)"
              using same_bank_unchanged [OF mstep(3)] fc1 fc2 sm1 sm2 by blast
            have "same_configuration M1 c1 M2 c2"
              using sk_c sstep(3) sm_c by (simp add: same_configuration_def)
            then show ?thesis using kstep mstep Inr act2 True sstep
              by (simp add: LorenzMachine_advance_def)
          qed
        qed
      qed
    qed
  qed
qed

lemma same_configuration_encrypt_character:
  assumes sc: "same_configuration M1 h1 M2 h2" and n1: "no_sharing M1" and n2: "no_sharing M2"
  shows "rel_sum (=) (\<lambda>p1 p2. fst p1 = fst p2 \<and> same_configuration M1 (snd p1) M2 (snd p2))
           (LorenzMachine_encrypt_character M1 c h1) (LorenzMachine_encrypt_character M2 c h2)"
proof -
  have k: "WheelSet_get_current_value (k_set M1) h1 = WheelSet_get_current_value (k_set M2) h2"
    and s: "WheelSet_get_current_value (s_set M1) h1 = WheelSet_get_current_value (s_set M2) h2"
    using sc by (simp_all add: same_configuration_def same_bank_aggregate)
  show ?thesis
  proof (cases "WheelSet_get_current_value (k_set M2) h2")
    case (Inl e)
    then show ?thesis using k by (simp add: LorenzMachine_encrypt_character_def)
  next
    case kv: (Inr kv)
    show ?thesis
    proof (cases "WheelSet_get_current_value (s_set M2) h2")
      case (Inl e)
      then show ?thesis using k s kv by (simp add: LorenzMachine_encrypt_character_def)
    next
      case sv: (Inr sv)
      from same_configuration_advance [OF sc n1 n2] show ?thesis
      proof (cases rule: rel_sum_cases)
        case (fails e)
        then show ?thesis using k s kv sv by (simp add: LorenzMachine_encrypt_character_def)
      next
        case (returns g1 g2)
        then show ?thesis using k s kv sv by (simp add: LorenzMachine_encrypt_character_def)
      qed
    qed
  qed
qed

lemma same_configuration_encrypt_characters:
  assumes n1: "no_sharing M1" and n2: "no_sharing M2"
  shows "same_configuration M1 h1 M2 h2 \<Longrightarrow>
         rel_sum (=) (\<lambda>p1 p2. fst p1 = fst p2 \<and> same_configuration M1 (snd p1) M2 (snd p2))
           (encrypt_characters M1 C h1) (encrypt_characters M2 C h2)"
proof (induction C arbitrary: h1 h2)
  case Nil
  then show ?case by simp
next
  case (Cons c cs)
  from same_configuration_encrypt_character [OF Cons.prems n1 n2, of c] show ?case
  proof (cases rule: rel_sum_cases)
    case (fails e)
    then show ?thesis by simp
  next
    case first: (returns p1 p2)
    obtain x g1 where p1: "p1 = (x, g1)" by (cases p1)
    obtain y g2 where p2: "p2 = (y, g2)" by (cases p2)
    from first(3) p1 p2 have xy: "y = x" and sc': "same_configuration M1 g1 M2 g2" by simp_all
    from Cons.IH [OF sc'] show ?thesis
    proof (cases rule: rel_sum_cases)
      case (fails e)
      then show ?thesis using first(1,2) p1 p2 by simp
    next
      case (returns q1 q2)
      obtain xs k1 where q1: "q1 = (xs, k1)" by (cases q1)
      obtain ys k2 where q2: "q2 = (ys, k2)" by (cases q2)
      show ?thesis using first(1,2) p1 p2 xy returns q1 q2 by simp
    qed
  qed
qed

lemma same_configuration_encrypt_message:
  assumes "same_configuration M1 h1 M2 h2" and "no_sharing M1" and "no_sharing M2"
  shows "map_sum id fst (LorenzMachine_encrypt_message M1 C h1)
       = map_sum id fst (LorenzMachine_encrypt_message M2 C h2)"
proof -
  from same_configuration_encrypt_characters [OF assms(2,3,1), of C] show ?thesis
  proof (cases rule: rel_sum_cases)
    case (fails e)
    then show ?thesis by (simp add: LorenzMachine_encrypt_message_def)
  next
    case (returns q1 q2)
    obtain xs k1 where q1: "q1 = (xs, k1)" by (cases q1)
    obtain ys k2 where q2: "q2 = (ys, k2)" by (cases q2)
    show ?thesis using returns q1 q2 by (simp add: LorenzMachine_encrypt_message_def)
  qed
qed

section \<open>Properties of the machine\<close>

theorem machine_step_order_witness:
  "machine_ok scenario_machine scenario_store \<and> no_sharing scenario_machine
   \<and> MotorWheelSet_is_active (m_set scenario_machine) scenario_store = Inr True
   \<and> map_sum id (\<lambda>h'. map (\<lambda>r. current_position (h' r)) [0, 1, 2, 3, 4, 5])
         (LorenzMachine_advance scenario_machine scenario_store) = Inr [1, 1, 1, 1, 1, 0]
   \<and> (\<exists>h3. LorenzMachine_advance scenario_machine scenario_store = Inr h3
          \<and> (\<forall>r\<in>set (k_set scenario_machine). Wheel_advance (scenario_store r) = Inr (h3 r))
          \<and> (\<forall>r\<in>set (s_set scenario_machine). Wheel_advance (scenario_store r) = Inr (h3 r)))"
proof -
  have act: "MotorWheelSet_is_active (m_set scenario_machine) scenario_store = Inr True"
    by code_simp
  have pos: "map_sum id (\<lambda>h'. map (\<lambda>r. current_position (h' r)) [0, 1, 2, 3, 4, 5])
         (LorenzMachine_advance scenario_machine scenario_store) = Inr [1, 1, 1, 1, 1, 0]"
    by code_simp
  from machine_step_order [OF scenario_ok scenario_no_sharing] obtain h1 h2 h3 active
    where h2: "MotorWheelSet_is_active (m_set scenario_machine) h2 = Inr active"
      and h3: "LorenzMachine_advance scenario_machine scenario_store = Inr h3"
      and a: "active = (current_bit (h3 (m_set scenario_machine ! 1)) = 1)"
      and k: "\<forall>r\<in>set (k_set scenario_machine). Wheel_advance (scenario_store r) = Inr (h3 r)"
      and s: "active \<longrightarrow>
                (\<forall>r\<in>set (s_set scenario_machine). Wheel_advance (scenario_store r) = Inr (h3 r))"
    by blast
  have "current_position (h3 5) = 0" using pos h3 by simp
  moreover have "wheel_data (h3 5) = [1, 1]"
  proof -
    have "map_sum id (\<lambda>h'. wheel_data (h' 5))
            (LorenzMachine_advance scenario_machine scenario_store) = Inr [1, 1]"
      by code_simp
    then show ?thesis using h3 by simp
  qed
  ultimately have "current_bit (h3 (m_set scenario_machine ! 1)) = 1"
    by (simp add: current_bit_def scenario_machine_def)
  with a s have "\<forall>r\<in>set (s_set scenario_machine). Wheel_advance (scenario_store r) = Inr (h3 r)"
    by simp
  then show ?thesis using scenario_ok scenario_no_sharing act pos h3 k by blast
qed

text \<open>
  C2. From a valid machine state, encrypting one symbol returns the code XORed with the
  XOR of the K and S aggregate values read from the state before the step, and the
  state it leaves is the result of exactly one machine step. In a sequence, output \<open>i\<close>
  is code \<open>i\<close> XORed with the keystream value of the state reached by \<open>i\<close> steps from the
  initial one.
\<close>

theorem encrypt_character_uses_keystream:
  assumes "machine_ok M h"
  shows "(\<exists>k s h'. WheelSet_get_current_value (k_set M) h = Inr k
            \<and> WheelSet_get_current_value (s_set M) h = Inr s
            \<and> LorenzMachine_advance M h = Inr h'
            \<and> LorenzMachine_encrypt_character M c h = Inr (c XOR (k XOR s), h'))
       \<and> (\<exists>out hn. encrypt_characters M C h = Inr (out, hn)
            \<and> LorenzMachine_advance_n (length C) M h = Inr hn
            \<and> (\<forall>i<length C. \<exists>hi k s. LorenzMachine_advance_n i M h = Inr hi
                  \<and> WheelSet_get_current_value (k_set M) hi = Inr k
                  \<and> WheelSet_get_current_value (s_set M) hi = Inr s
                  \<and> out ! i = (C ! i) XOR (k XOR s)))"
proof -
  have one: "\<exists>k s h'. WheelSet_get_current_value (k_set M) h = Inr k
            \<and> WheelSet_get_current_value (s_set M) h = Inr s
            \<and> LorenzMachine_advance M h = Inr h'
            \<and> LorenzMachine_encrypt_character M c h = Inr (c XOR (k XOR s), h')"
    using LorenzMachine_encrypt_character_ok [OF assms] by blast
  have many: "\<exists>out hn. encrypt_characters M C h = Inr (out, hn)
            \<and> LorenzMachine_advance_n (length C) M h = Inr hn
            \<and> (\<forall>i<length C. \<exists>hi k s. LorenzMachine_advance_n i M h = Inr hi
                  \<and> WheelSet_get_current_value (k_set M) hi = Inr k
                  \<and> WheelSet_get_current_value (s_set M) hi = Inr s
                  \<and> out ! i = (C ! i) XOR (k XOR s))"
    using encrypt_characters_keystream [OF assms, of C] by blast
  show ?thesis using one many by blast
qed

theorem encrypt_character_uses_keystream_witness:
  "machine_ok scenario_machine scenario_store
   \<and> WheelSet_get_current_value (k_set scenario_machine) scenario_store = Inr 1
   \<and> WheelSet_get_current_value (s_set scenario_machine) scenario_store = Inr 1
   \<and> map_sum id fst (LorenzMachine_encrypt_character scenario_machine 3 scenario_store)
       = Inr (3 XOR (1 XOR 1))
   \<and> map_sum id fst (encrypt_characters scenario_machine [0, 3] scenario_store) = Inr [0, 2]"
proof -
  have kv: "WheelSet_get_current_value (k_set scenario_machine) scenario_store = Inr 1"
    by code_simp
  have sv: "WheelSet_get_current_value (s_set scenario_machine) scenario_store = Inr 1"
    by code_simp
  have seq: "map_sum id fst (encrypt_characters scenario_machine [0, 3] scenario_store)
               = Inr [0, 2]"
    by code_simp
  from encrypt_character_uses_keystream [OF scenario_ok, of 3 "[]"] obtain k s h'
    where "WheelSet_get_current_value (k_set scenario_machine) scenario_store = Inr k"
      and "WheelSet_get_current_value (s_set scenario_machine) scenario_store = Inr s"
      and "LorenzMachine_encrypt_character scenario_machine 3 scenario_store
             = Inr (3 XOR (k XOR s), h')"
    by blast
  with kv sv have "map_sum id fst (LorenzMachine_encrypt_character scenario_machine 3 scenario_store)
       = Inr (3 XOR (1 XOR 1))" by simp
  then show ?thesis using scenario_ok kv sv seq by blast
qed

lemma LorenzMachine_encrypt_character_any_code:
  assumes "LorenzMachine_encrypt_character M c h = Inr (x, h1)"
  shows "\<exists>ks. x = c XOR ks
           \<and> (\<forall>c'. LorenzMachine_encrypt_character M c' h = Inr (c' XOR ks, h1))"
proof -
  from assms obtain k s where k: "WheelSet_get_current_value (k_set M) h = Inr k"
    and s: "WheelSet_get_current_value (s_set M) h = Inr s"
    and a: "LorenzMachine_advance M h = Inr h1" and x: "x = (c XOR k) XOR s"
    by (auto simp: LorenzMachine_encrypt_character_def split: sum.splits)
  have "x = c XOR (k XOR s)" using x by (simp add: xor.assoc)
  moreover have "LorenzMachine_encrypt_character M c' h = Inr (c' XOR (k XOR s), h1)" for c'
    using k s a by (simp add: LorenzMachine_encrypt_character_def xor.assoc)
  ultimately show ?thesis by blast
qed

lemma encrypt_characters_undo:
  "encrypt_characters M C h = Inr (out, h') \<Longrightarrow> encrypt_characters M out h = Inr (C, h')"
proof (induction C arbitrary: h out)
  case Nil
  then show ?case by simp
next
  case (Cons c cs)
  from Cons.prems obtain x h1 xs
    where first: "LorenzMachine_encrypt_character M c h = Inr (x, h1)"
      and rest: "encrypt_characters M cs h1 = Inr (xs, h')" and out: "out = x # xs"
    by (auto split: sum.splits prod.splits)
  from LorenzMachine_encrypt_character_any_code [OF first] obtain ks
    where x: "x = c XOR ks"
      and any: "\<forall>c'. LorenzMachine_encrypt_character M c' h = Inr (c' XOR ks, h1)" by blast
  have "LorenzMachine_encrypt_character M x h = Inr (c, h1)"
    using any x by (simp add: xor_twice)
  moreover have "encrypt_characters M xs h1 = Inr (cs, h')" using Cons.IH [OF rest] .
  ultimately show ?case using out by simp
qed

text \<open>
  C1. For every machine, store and sequence of integer codes: whenever encrypting the
  codes symbol by symbol returns, encrypting the output from the same initial state
  returns the codes. From a valid state the first run always returns. The second run
  may also be on another machine, made of other wheel objects of the same patterns,
  sizes and positions, when neither machine shares a wheel between bank positions.
\<close>

theorem self_inverse_round_trip:
  "(\<forall>out h'. encrypt_characters M C h = Inr (out, h') \<longrightarrow>
      encrypt_characters M out h = Inr (C, h'))
   \<and> (machine_ok M h \<longrightarrow>
        (\<exists>out h'. encrypt_characters M C h = Inr (out, h')
            \<and> encrypt_characters M out h = Inr (C, h')))
   \<and> (\<forall>M2 h2. machine_ok M h \<and> no_sharing M \<and> no_sharing M2
                 \<and> same_configuration M h M2 h2 \<longrightarrow>
            (\<exists>out h' h2'. encrypt_characters M C h = Inr (out, h')
               \<and> encrypt_characters M2 out h2 = Inr (C, h2')))"
proof -
  have undo: "\<forall>out h'. encrypt_characters M C h = Inr (out, h') \<longrightarrow>
      encrypt_characters M out h = Inr (C, h')"
    using encrypt_characters_undo by blast
  have same: "machine_ok M h \<longrightarrow>
        (\<exists>out h'. encrypt_characters M C h = Inr (out, h')
            \<and> encrypt_characters M out h = Inr (C, h'))"
    using encrypt_characters_self_inverse by blast
  have other: "\<exists>out h' h2'. encrypt_characters M C h = Inr (out, h')
               \<and> encrypt_characters M2 out h2 = Inr (C, h2')"
    if "machine_ok M h \<and> no_sharing M \<and> no_sharing M2 \<and> same_configuration M h M2 h2"
    for M2 h2
  proof -
    from that have ok: "machine_ok M h" and n1: "no_sharing M" and n2: "no_sharing M2"
      and sc: "same_configuration M h M2 h2" by simp_all
    from encrypt_characters_self_inverse [OF ok, of C] obtain out h'
      where fwd: "encrypt_characters M C h = Inr (out, h')"
        and bwd: "encrypt_characters M out h = Inr (C, h')" by blast
    from same_configuration_encrypt_characters [OF n1 n2 sc, of out]
    have "\<exists>h2'. encrypt_characters M2 out h2 = Inr (C, h2')"
    proof (cases rule: rel_sum_cases)
      case (fails e)
      then show ?thesis using bwd by simp
    next
      case (returns p1 p2)
      from returns(1) bwd have "p1 = (C, h')" by simp
      with returns(3) have "fst p2 = C" by simp
      then show ?thesis using returns(2) by (cases p2) simp
    qed
    then show ?thesis using fwd by blast
  qed
  show ?thesis using undo same other by blast
qed

lemma scenario_same_configuration:
  "same_configuration scenario_machine scenario_store scenario_copy_machine scenario_copy_store"
  by (simp add: same_configuration_def scenario_machine_def scenario_copy_machine_def
      scenario_store_def scenario_copy_store_def same_wheel_def)

lemma scenario_copy_no_sharing: "no_sharing scenario_copy_machine"
  by (simp add: no_sharing_def scenario_copy_machine_def)

theorem self_inverse_round_trip_witness:
  "machine_ok scenario_machine scenario_store
   \<and> no_sharing scenario_machine \<and> no_sharing scenario_copy_machine
   \<and> same_configuration scenario_machine scenario_store
        scenario_copy_machine scenario_copy_store
   \<and> map_sum id fst (encrypt_characters scenario_machine [0, 3] scenario_store) = Inr [0, 2]
   \<and> map_sum id fst (encrypt_characters scenario_machine [0, 2] scenario_store) = Inr [0, 3]
   \<and> map_sum id fst (encrypt_characters scenario_copy_machine [0, 2] scenario_copy_store)
        = Inr [0, 3]"
proof -
  have enc: "map_sum id fst (encrypt_characters scenario_machine [0, 3] scenario_store)
               = Inr [0, 2]"
    by code_simp
  note inst = self_inverse_round_trip [of scenario_machine "[0, 3]" scenario_store]
  from inst scenario_ok obtain out h'
    where fwd: "encrypt_characters scenario_machine [0, 3] scenario_store = Inr (out, h')"
      and bwd: "encrypt_characters scenario_machine out scenario_store = Inr ([0, 3], h')"
    by blast
  from enc fwd have out: "out = [0, 2]" by simp
  have dec: "map_sum id fst (encrypt_characters scenario_machine [0, 2] scenario_store)
               = Inr [0, 3]"
    using bwd out by simp
  from inst scenario_ok scenario_no_sharing scenario_copy_no_sharing
    scenario_same_configuration
  obtain out2 k1 k2
    where f2: "encrypt_characters scenario_machine [0, 3] scenario_store = Inr (out2, k1)"
      and b2: "encrypt_characters scenario_copy_machine out2 scenario_copy_store
                 = Inr ([0, 3], k2)"
    by blast
  from f2 fwd out have "out2 = [0, 2]" by simp
  then have dec2: "map_sum id fst
                     (encrypt_characters scenario_copy_machine [0, 2] scenario_copy_store)
                   = Inr [0, 3]"
    using b2 by simp
  show ?thesis
    using scenario_ok scenario_no_sharing scenario_copy_no_sharing
      scenario_same_configuration enc dec dec2 by blast
qed

text \<open>
  C9. Two machines made of different wheel objects, possibly with different wheel
  names, but with the same patterns, sizes and positions place by place, neither of
  them sharing a wheel between bank positions: on the same input they return the same
  string, or raise the same exception; the lists of encrypted integers agree as well.
  Each operation is a function of the machine, the store and the input alone.
\<close>

theorem determinism_two_runs:
  assumes "same_configuration M1 h1 M2 h2" and "no_sharing M1" and "no_sharing M2"
  shows "map_sum id fst (LorenzMachine_encrypt_message M1 C h1)
           = map_sum id fst (LorenzMachine_encrypt_message M2 C h2)
       \<and> map_sum id fst (encrypt_characters M1 C h1)
           = map_sum id fst (encrypt_characters M2 C h2)"
proof -
  have msg: "map_sum id fst (LorenzMachine_encrypt_message M1 C h1)
           = map_sum id fst (LorenzMachine_encrypt_message M2 C h2)"
    by (rule same_configuration_encrypt_message [OF assms])
  from same_configuration_encrypt_characters [OF assms(2,3,1), of C]
  have "map_sum id fst (encrypt_characters M1 C h1)
           = map_sum id fst (encrypt_characters M2 C h2)"
    by (cases rule: rel_sum_cases) simp_all
  then show ?thesis using msg by simp
qed

theorem determinism_two_runs_witness:
  "same_configuration scenario_machine scenario_store scenario_copy_machine scenario_copy_store
   \<and> no_sharing scenario_machine \<and> no_sharing scenario_copy_machine
   \<and> map_sum id fst (LorenzMachine_encrypt_message scenario_machine [0, 3] scenario_store)
        = Inr ''0b0000000010''
   \<and> map_sum id fst
        (LorenzMachine_encrypt_message scenario_copy_machine [0, 3] scenario_copy_store)
        = Inr ''0b0000000010''"
proof -
  have one: "map_sum id fst (LorenzMachine_encrypt_message scenario_machine [0, 3] scenario_store)
        = Inr ''0b0000000010''"
    by code_simp
  have two: "map_sum id fst
        (LorenzMachine_encrypt_message scenario_copy_machine [0, 3] scenario_copy_store)
        = Inr ''0b0000000010''"
    using determinism_two_runs
      [OF scenario_same_configuration scenario_no_sharing scenario_copy_no_sharing, of "[0, 3]"]
      one by simp
  show ?thesis
    using scenario_same_configuration scenario_no_sharing scenario_copy_no_sharing one two
    by blast
qed

section \<open>The returned message\<close>

lemma encrypt_characters_length:
  "encrypt_characters M C h = Inr (out, h') \<Longrightarrow> length out = length C"
proof (induction C arbitrary: h out)
  case Nil
  then show ?case by simp
next
  case (Cons c cs)
  then show ?case by (auto split: sum.splits prod.splits)
qed

lemma bin_nat_length: "0 < k \<Longrightarrow> n < 2 ^ k \<Longrightarrow> length (bin_nat n) \<le> k"
proof (induction n arbitrary: k rule: bin_nat.induct)
  case (1 n)
  show ?case
  proof (cases "n < 2")
    case True
    then show ?thesis using "1.prems" by (simp add: bin_nat.simps [of n])
  next
    case False
    then obtain j where k: "k = Suc j" and j: "0 < j"
      using "1.prems" by (cases k; cases "k - 1") auto
    have "n div 2 < 2 ^ j" using "1.prems"(2) k by auto
    from "1.IH" [OF False j this] have "length (bin_nat (n div 2)) \<le> j" .
    then show ?thesis using False k by (simp add: bin_nat.simps [of n])
  qed
qed

lemma bin_nat_nonempty: "bin_nat n \<noteq> []"
  by (simp add: bin_nat.simps [of n])

lemma format_05b_length: "0 \<le> n \<Longrightarrow> n < 32 \<Longrightarrow> length (format_05b n) = 5"
proof -
  assume "0 \<le> n" and "n < 32"
  then have "nat n < 2 ^ 5" by simp
  then have "length (bin_nat (nat n)) \<le> 5" by (intro bin_nat_length) simp_all
  then show ?thesis using \<open>0 \<le> n\<close> by (simp add: format_05b_def zfill_def)
qed

lemma concat_format_length:
  "list_all (\<lambda>x. 0 \<le> x \<and> x < 32) xs \<Longrightarrow> length (concat (map format_05b xs)) = 5 * length xs"
  by (induction xs) (simp_all add: format_05b_length)

lemma aggregate_range:
  assumes "rs \<noteq> []" and "list_all (\<lambda>r. wheel_ok (h r)) rs" and "length rs \<le> 5"
  shows "\<exists>v. WheelSet_get_current_value rs h = Inr v \<and> 0 \<le> v \<and> v < 32"
proof -
  have rd: "list_all (\<lambda>r. bit_readable (h r)) rs"
    using assms(2) wheel_ok_readable by (simp add: list_all_iff)
  let ?v = "little_endian_value (map (\<lambda>r. current_bit (h r)) rs)"
  have v: "WheelSet_get_current_value rs h = Inr ?v"
    by (rule WheelSet_get_current_value_readable [OF assms(1) rd])
  have b: "0 \<le> ?v \<and> ?v < 2 ^ length rs"
    using little_endian_value_bounds [OF current_bits_are_bits [OF rd]] by simp
  have "(2::int) ^ length rs \<le> 2 ^ 5" using assms(3) by (intro power_increasing) simp_all
  then have "?v < 32" using b by simp
  then show ?thesis using v b by blast
qed

lemma xor_range: "0 \<le> (a::int) \<Longrightarrow> a < 32 \<Longrightarrow> 0 \<le> b \<Longrightarrow> b < 32 \<Longrightarrow> 0 \<le> a XOR b \<and> a XOR b < 32"
  using XOR_upper [of a 5 b] by simp

lemma encrypt_characters_range:
  assumes k5: "length (k_set M) \<le> 5" and s5: "length (s_set M) \<le> 5"
  shows "machine_ok M h \<Longrightarrow> list_all (\<lambda>c. 0 \<le> c \<and> c < 32) C \<Longrightarrow>
         \<exists>out h'. encrypt_characters M C h = Inr (out, h')
            \<and> list_all (\<lambda>x. 0 \<le> x \<and> x < 32) out"
proof (induction C arbitrary: h)
  case Nil
  then show ?case by simp
next
  case (Cons c cs)
  from Cons.prems(1) have kne: "k_set M \<noteq> []" and sne: "s_set M \<noteq> []"
    and okk: "list_all (\<lambda>r. wheel_ok (h r)) (k_set M)"
    and oks: "list_all (\<lambda>r. wheel_ok (h r)) (s_set M)"
    by (simp_all add: machine_ok_def)
  from aggregate_range [OF kne okk k5] obtain k
    where k: "WheelSet_get_current_value (k_set M) h = Inr k" and kr: "0 \<le> k" "k < 32" by blast
  from aggregate_range [OF sne oks s5] obtain s
    where s: "WheelSet_get_current_value (s_set M) h = Inr s" and sr: "0 \<le> s" "s < 32" by blast
  from LorenzMachine_advance_ok [OF Cons.prems(1)] obtain h1
    where h1: "LorenzMachine_advance M h = Inr h1" and ok1: "machine_ok M h1" by blast
  from Cons.prems(2) have cr: "0 \<le> c" "c < 32" and rest: "list_all (\<lambda>c. 0 \<le> c \<and> c < 32) cs"
    by simp_all
  have x1: "0 \<le> c XOR k \<and> c XOR k < 32" using xor_range [OF cr kr] .
  then have x2: "0 \<le> (c XOR k) XOR s \<and> (c XOR k) XOR s < 32"
    using xor_range [of "c XOR k" s] sr by simp
  have enc: "LorenzMachine_encrypt_character M c h = Inr ((c XOR k) XOR s, h1)"
    using k s h1 by (simp add: LorenzMachine_encrypt_character_def)
  from Cons.IH [OF ok1 rest] obtain out h'
    where "encrypt_characters M cs h1 = Inr (out, h')"
      and "list_all (\<lambda>x. 0 \<le> x \<and> x < 32) out" by blast
  then show ?case using enc x2 by simp
qed

text \<open>
  The method \<^verbatim>\<open>encrypt_message\<close> does not return the list of encrypted integers: on the
  empty input it returns the two-character string \<^verbatim>\<open>0b\<close>, and on the two codes
  \<open>[0, 3]\<close> a string of twelve characters.
\<close>

theorem encrypt_message_counterexample:
  "map_sum id fst (LorenzMachine_encrypt_message scenario_machine [] scenario_store) = Inr ''0b''
   \<and> ''0b'' \<noteq> []
   \<and> map_sum id (length \<circ> fst)
        (LorenzMachine_encrypt_message scenario_machine [0, 3] scenario_store) = Inr 12
   \<and> (12::nat) \<noteq> length [0::int, 3]"
  by code_simp

text \<open>
  C6, as the code has it. The list of encrypted integers built inside
  \<^verbatim>\<open>encrypt_message\<close> has one element per input code, in order, and from a valid state
  it is always produced, after as many machine steps as there are codes. What the
  method returns is the string \<^verbatim>\<open>0b\<close> followed by the five-digit binary rendering of each
  element: \<open>2 + 5 * len\<close> characters when the banks have at most five wheels and the
  codes lie in \<open>[0, 32)\<close>. On the empty input it returns \<^verbatim>\<open>0b\<close> and the store is untouched.
\<close>

theorem encrypt_message_returns_string:
  "LorenzMachine_encrypt_message M [] h = Inr (''0b'', h)
   \<and> LorenzMachine_advance_n (length ([]::int list)) M h = Inr h
   \<and> (\<forall>out h'. encrypt_characters M C h = Inr (out, h') \<longrightarrow>
         length out = length C
         \<and> LorenzMachine_encrypt_message M C h
             = Inr (''0b'' @ concat (map format_05b out), h'))
   \<and> (machine_ok M h \<longrightarrow>
         (\<exists>out h'. encrypt_characters M C h = Inr (out, h') \<and> length out = length C
             \<and> LorenzMachine_advance_n (length C) M h = Inr h'))
   \<and> (machine_ok M h \<and> length (k_set M) \<le> 5 \<and> length (s_set M) \<le> 5
        \<and> list_all (\<lambda>c. 0 \<le> c \<and> c < 32) C \<longrightarrow>
         (\<exists>s h'. LorenzMachine_encrypt_message M C h = Inr (s, h')
             \<and> length s = 2 + 5 * length C))"
proof -
  have empty: "LorenzMachine_encrypt_message M [] h = Inr (''0b'', h)"
    by (simp add: LorenzMachine_encrypt_message_def)
  have zero: "LorenzMachine_advance_n (length ([]::int list)) M h = Inr h" by simp
  have render: "\<forall>out h'. encrypt_characters M C h = Inr (out, h') \<longrightarrow>
         length out = length C
         \<and> LorenzMachine_encrypt_message M C h
             = Inr (''0b'' @ concat (map format_05b out), h')"
    by (auto simp: LorenzMachine_encrypt_message_def dest: encrypt_characters_length)
  have total: "machine_ok M h \<longrightarrow>
         (\<exists>out h'. encrypt_characters M C h = Inr (out, h') \<and> length out = length C
             \<and> LorenzMachine_advance_n (length C) M h = Inr h')"
  proof
    assume "machine_ok M h"
    from encrypt_characters_keystream [OF this, of C]
    show "\<exists>out h'. encrypt_characters M C h = Inr (out, h') \<and> length out = length C
             \<and> LorenzMachine_advance_n (length C) M h = Inr h'" by blast
  qed
  have width: "machine_ok M h \<and> length (k_set M) \<le> 5 \<and> length (s_set M) \<le> 5
        \<and> list_all (\<lambda>c. 0 \<le> c \<and> c < 32) C \<longrightarrow>
         (\<exists>s h'. LorenzMachine_encrypt_message M C h = Inr (s, h')
             \<and> length s = 2 + 5 * length C)"
  proof
    assume a: "machine_ok M h \<and> length (k_set M) \<le> 5 \<and> length (s_set M) \<le> 5
        \<and> list_all (\<lambda>c. 0 \<le> c \<and> c < 32) C"
    then have ok: "machine_ok M h" and k5: "length (k_set M) \<le> 5"
      and s5: "length (s_set M) \<le> 5" and cr: "list_all (\<lambda>c. 0 \<le> c \<and> c < 32) C"
      by simp_all
    from encrypt_characters_range [OF k5 s5 ok cr] obtain out h'
      where e: "encrypt_characters M C h = Inr (out, h')"
        and r: "list_all (\<lambda>x. 0 \<le> x \<and> x < 32) out" by blast
    have "length out = length C" using encrypt_characters_length [OF e] .
    then have "length (''0b'' @ concat (map format_05b out)) = 2 + 5 * length C"
      using concat_format_length [OF r] by simp
    then show "\<exists>s h'. LorenzMachine_encrypt_message M C h = Inr (s, h')
             \<and> length s = 2 + 5 * length C"
      using e by (simp add: LorenzMachine_encrypt_message_def)
  qed
  show ?thesis using empty zero render total width by blast
qed

theorem encrypt_message_returns_string_witness:
  "machine_ok scenario_machine scenario_store
   \<and> length (k_set scenario_machine) \<le> 5 \<and> length (s_set scenario_machine) \<le> 5
   \<and> list_all (\<lambda>c. 0 \<le> c \<and> c < 32) [0, 3::int]
   \<and> map_sum id fst (encrypt_characters scenario_machine [0, 3] scenario_store) = Inr [0, 2]
   \<and> map_sum id fst (LorenzMachine_encrypt_message scenario_machine [0, 3] scenario_store)
        = Inr (''0b'' @ concat (map format_05b [0, 2]))
   \<and> map_sum id (length \<circ> fst)
        (LorenzMachine_encrypt_message scenario_machine [0, 3] scenario_store)
        = Inr (2 + 5 * length [0, 3::int])"
proof -
  have k5: "length (k_set scenario_machine) \<le> 5" and s5: "length (s_set scenario_machine) \<le> 5"
    by (simp_all add: scenario_machine_def)
  have cr: "list_all (\<lambda>c. 0 \<le> c \<and> c < 32) [0, 3::int]" by simp
  have enc: "map_sum id fst (encrypt_characters scenario_machine [0, 3] scenario_store)
               = Inr [0, 2]" by code_simp
  note inst = encrypt_message_returns_string [of scenario_machine scenario_store "[0, 3]"]
  from inst scenario_ok obtain out h'
    where e: "encrypt_characters scenario_machine [0, 3] scenario_store = Inr (out, h')"
    by blast
  with enc have out: "out = [0, 2]" by simp
  from inst e have "LorenzMachine_encrypt_message scenario_machine [0, 3] scenario_store
             = Inr (''0b'' @ concat (map format_05b out), h')" by blast
  with out have msg: "map_sum id fst
        (LorenzMachine_encrypt_message scenario_machine [0, 3] scenario_store)
        = Inr (''0b'' @ concat (map format_05b [0, 2]))" by simp
  from inst scenario_ok k5 s5 cr obtain s k
    where "LorenzMachine_encrypt_message scenario_machine [0, 3] scenario_store = Inr (s, k)"
      and "length s = 2 + 5 * length [0, 3::int]" by blast
  then have len: "map_sum id (length \<circ> fst)
        (LorenzMachine_encrypt_message scenario_machine [0, 3] scenario_store)
        = Inr (2 + 5 * length [0, 3::int])" by simp
  show ?thesis using scenario_ok k5 s5 cr enc msg len by blast
qed

section \<open>Construction\<close>

text \<open>
  No constructor checks anything: a wheel of size 0 with a one-entry pattern holding 2
  and position 7 is built, and so are an empty bank, a motor bank of one wheel and a
  machine made of them.
\<close>

theorem construction_counterexample:
  "Wheel_init ''k1'' 0 7 [2]
     = Inr \<lparr>wheel_name = ''k1'', wheel_data = [2], wheel_size = 0, current_position = 7\<rparr>
   \<and> WheelSet_init [] = Inr []
   \<and> MotorWheelSet_init [0] = Inr [0]
   \<and> LorenzMachine_init [] [] [0] = Inr \<lparr>k_set = [], s_set = [], m_set = [0]\<rparr>"
  by (simp add: Wheel_init_def WheelSet_init_def MotorWheelSet_init_def LorenzMachine_init_def)

text \<open>
  C7, as the code has it. Construction never fails: \<^verbatim>\<open>Wheel\<close>, \<^verbatim>\<open>WheelSet\<close>,
  \<^verbatim>\<open>MotorWheelSet\<close> and \<^verbatim>\<open>LorenzMachine\<close> store their arguments as given. Invalid
  arguments surface when the object is used: a size of 0 raises ZeroDivisionError at
  the first advance, a position outside \<open>[-len, len)\<close> raises IndexError at the first
  read, an empty bank raises ValueError when its value is read, and a motor bank of
  fewer than two wheels raises IndexError when asked whether it is active.
\<close>

theorem construction_unchecked:
  "Wheel_init name sz p d
     = Inr \<lparr>wheel_name = name, wheel_data = d, wheel_size = sz, current_position = p\<rparr>
   \<and> WheelSet_init ws = Inr ws
   \<and> MotorWheelSet_init ws = Inr ws
   \<and> LorenzMachine_init k s m = Inr \<lparr>k_set = k, s_set = s, m_set = m\<rparr>
   \<and> (wheel_size w = 0 \<longrightarrow> Wheel_advance w = Inl ZeroDivisionError)
   \<and> (current_position w < - int (length (wheel_data w))
        \<or> int (length (wheel_data w)) \<le> current_position w
        \<longrightarrow> Wheel_get_current_value w = Inl IndexError)
   \<and> WheelSet_get_current_value [] h = Inl ValueError
   \<and> (length ws < 2 \<longrightarrow> MotorWheelSet_is_active ws h = Inl IndexError)"
proof -
  have build: "Wheel_init name sz p d
     = Inr \<lparr>wheel_name = name, wheel_data = d, wheel_size = sz, current_position = p\<rparr>
   \<and> WheelSet_init ws = Inr ws
   \<and> MotorWheelSet_init ws = Inr ws
   \<and> LorenzMachine_init k s m = Inr \<lparr>k_set = k, s_set = s, m_set = m\<rparr>"
    by (simp add: Wheel_init_def WheelSet_init_def MotorWheelSet_init_def
        LorenzMachine_init_def)
  have size0: "wheel_size w = 0 \<longrightarrow> Wheel_advance w = Inl ZeroDivisionError"
    by (simp add: Wheel_advance_def)
  have pos: "current_position w < - int (length (wheel_data w))
        \<or> int (length (wheel_data w)) \<le> current_position w
        \<longrightarrow> Wheel_get_current_value w = Inl IndexError"
    by (auto simp: Wheel_get_current_value_def py_index_def)
  have empty: "WheelSet_get_current_value [] h = Inl ValueError"
    by (simp add: WheelSet_get_current_value_def py_int_base2_def)
  have short: "length ws < 2 \<longrightarrow> MotorWheelSet_is_active ws h = Inl IndexError"
    by (simp add: MotorWheelSet_is_active_short)
  show ?thesis using build size0 pos empty short by blast
qed

theorem construction_unchecked_witness:
  "wheel_size \<lparr>wheel_name = ''k1'', wheel_data = [2], wheel_size = 0, current_position = 7\<rparr> = 0
   \<and> Wheel_advance \<lparr>wheel_name = ''k1'', wheel_data = [2], wheel_size = 0,
                     current_position = 7\<rparr> = Inl ZeroDivisionError
   \<and> int (length (wheel_data \<lparr>wheel_name = ''k1'', wheel_data = [2], wheel_size = 0,
                               current_position = 7\<rparr>)) \<le> 7
   \<and> Wheel_get_current_value \<lparr>wheel_name = ''k1'', wheel_data = [2], wheel_size = 0,
                               current_position = 7\<rparr> = Inl IndexError
   \<and> length [0::ref] < 2
   \<and> MotorWheelSet_is_active [0] scenario_store = Inl IndexError"
proof -
  let ?w = "\<lparr>wheel_name = ''k1'', wheel_data = [2], wheel_size = 0, current_position = 7\<rparr>"
  have s0: "wheel_size ?w = 0" by simp
  have p7: "int (length (wheel_data ?w)) \<le> current_position ?w" by simp
  have l1: "length [0::ref] < 2" by simp
  note inst = construction_unchecked [of _ _ _ _ "[0]" _ _ _ ?w scenario_store]
  from inst s0 have a: "Wheel_advance ?w = Inl ZeroDivisionError" by blast
  from inst p7 have b: "Wheel_get_current_value ?w = Inl IndexError" by blast
  from inst l1 have c: "MotorWheelSet_is_active [0] scenario_store = Inl IndexError" by blast
  show ?thesis using s0 p7 l1 a b c by simp
qed

end
